theory Spec2Isabelle
  imports Complex_Main "HOL-Library.AList"
begin

section \<open>Multinomial logit probabilities: the model of calculate\_probabilities\<close>

text \<open>
  The development embeds \<^verbatim>\<open>calculate_probabilities\<close> of
  \<^verbatim>\<open>calculate_probabilities.py\<close>. A Python \<^verbatim>\<open>dict\<close> is an association list
  in insertion order, read with \<open>map_of\<close> and written with \<open>AList.update\<close>
  (which replaces the value of a present key in place and appends an absent key, as a
  Python dict does). Every exception is a value of type \<open>exn\<close>; the body of the
  \<^verbatim>\<open>try\<close> block returns \<open>exn + result\<close>, together with the log of the
  utility functions it has invoked so far.

  The numbers of the program are numpy's and CPython's floats, which are not code of the
  repository. The loops are therefore written once, over an \<open>arithmetic\<close>: the
  operations the code applies to numbers. Two arithmetics are given. \<open>float64\<close> is
  IEEE 754 binary64 with round to nearest, ties to even, overflow to infinity, underflow
  to zero and NaN; \<open>calculate_probabilities_f64\<close> is the function with it.
  \<open>exact_arithmetic\<close> is the real numbers without rounding;
  \<open>calculate_probabilities\<close> is the function with it, and says what the code computes
  wherever no number is involved (the validation of the input, the exceptions and the
  handler) or where rounding is far below the tolerance in question.
\<close>

subsection \<open>Exceptions and dictionaries\<close>

datatype exn =
    StopIteration
  | ValueError string
  | KeyError string
  | IndexError string
  | AssertionError string
  | OtherException string string

text \<open>
  \<^verbatim>\<open>str(e)\<close>, as the handler's f-string prints it. \<open>OtherException cls msg\<close>
  stands for any other subclass of \<^verbatim>\<open>Exception\<close> a utility function raises, with
  its class name and its message.
\<close>

fun str_exn :: "exn \<Rightarrow> string" where
  "str_exn StopIteration = ''''"
| "str_exn (ValueError msg) = msg"
| "str_exn (KeyError k) = [CHR 0x27] @ k @ [CHR 0x27]"
| "str_exn (IndexError msg) = msg"
| "str_exn (AssertionError msg) = msg"
| "str_exn (OtherException cls msg) = msg"

type_synonym 'v dict = "(string \<times> 'v) list"

subsection \<open>Decimal rendering of the integers in f-strings\<close>

definition digit_char :: "nat \<Rightarrow> char" where
  "digit_char d = ''0123456789'' ! d"

fun str_nat :: "nat \<Rightarrow> string" where
  "str_nat n = (if n < 10 then [digit_char n] else str_nat (n div 10) @ [digit_char (n mod 10)])"

declare str_nat.simps [simp del]

text \<open>The keys \<^verbatim>\<open>f'V{i+1}'\<close> and \<^verbatim>\<open>f'P{i+1}'\<close>.\<close>

definition V_key :: "nat \<Rightarrow> string" where
  "V_key i = ''V'' @ str_nat (i + 1)"

definition P_key :: "nat \<Rightarrow> string" where
  "P_key i = ''P'' @ str_nat (i + 1)"

subsection \<open>Input validation (lines 21--24)\<close>

text \<open>
  \<^verbatim>\<open>n_points = len(next(iter(data.values())))\<close>: \<^verbatim>\<open>next\<close> on the iterator
  of an empty dict raises \<^verbatim>\<open>StopIteration\<close>.
\<close>

definition first_length :: "'a list dict \<Rightarrow> exn + nat" where
  "first_length data = (case data of [] \<Rightarrow> Inl StopIteration | (key, values) # _ \<Rightarrow> Inr (length values))"

definition mismatch_message :: "string \<Rightarrow> nat \<Rightarrow> nat \<Rightarrow> string" where
  "mismatch_message key n_points got =
     ''Data length mismatch for variable '' @ [CHR 0x27] @ key @ [CHR 0x27] @
     ''. Expected '' @ str_nat n_points @ '', got '' @ str_nat got @ ''.''"

fun check_lengths :: "nat \<Rightarrow> 'a list dict \<Rightarrow> exn + unit" where
  "check_lengths n_points [] = Inr ()"
| "check_lengths n_points ((key, values) # rest) =
     (if length values \<noteq> n_points
      then Inl (ValueError (mismatch_message key n_points (length values)))
      else check_lengths n_points rest)"

definition validate_inputs :: "'a list dict \<Rightarrow> exn + nat" where
  "validate_inputs data =
     (case first_length data of
        Inl e \<Rightarrow> Inl e
      | Inr n_points \<Rightarrow>
          (case check_lengths n_points data of
             Inl e \<Rightarrow> Inl e
           | Inr _ \<Rightarrow> Inr n_points))"

subsection \<open>Initialisation (lines 27--28)\<close>

text \<open>The dict comprehension \<^verbatim>\<open>{f'V{i+1}': [] for i in range(m)}\<close>: one insertion per index.\<close>

definition init_columns :: "(nat \<Rightarrow> string) \<Rightarrow> nat \<Rightarrow> 'f list dict" where
  "init_columns key m = fold (\<lambda>i d. AList.update (key i) [] d) [0..<m] []"

subsection \<open>Utility evaluation (lines 31--34)\<close>

text \<open>
  A utility function takes the parameters and one data point and returns a number (of
  type \<open>'f\<close>) or raises. The parameters are opaque to
  \<^verbatim>\<open>calculate_probabilities\<close>.
\<close>

type_synonym ('p, 'a, 'f) utility = "'p \<Rightarrow> 'a dict \<Rightarrow> exn + 'f"

text \<open>
  \<^verbatim>\<open>{key: values[i] for key, values in data.items()}\<close>: the first sequence that
  is too short raises \<^verbatim>\<open>IndexError\<close>.
\<close>

fun data_point_from :: "'a list dict \<Rightarrow> nat \<Rightarrow> 'a dict \<Rightarrow> exn + 'a dict" where
  "data_point_from [] i dp = Inr dp"
| "data_point_from ((key, values) # rest) i dp =
     (if i < length values
      then data_point_from rest i (AList.update key (values ! i) dp)
      else Inl (IndexError ''list index out of range''))"

definition data_point :: "'a list dict \<Rightarrow> nat \<Rightarrow> exn + 'a dict" where
  "data_point data i = data_point_from data i []"

text \<open>
  A cell \<^verbatim>\<open>d[k][i]\<close> of a dict of columns: \<^verbatim>\<open>KeyError\<close> for an absent key,
  \<^verbatim>\<open>IndexError\<close> past the end of the column.
\<close>

definition cell :: "string \<Rightarrow> 'f list dict \<Rightarrow> nat \<Rightarrow> exn + 'f" where
  "cell k d i =
     (case map_of d k of
        None \<Rightarrow> Inl (KeyError k)
      | Some col \<Rightarrow>
          if i < length col then Inr (col ! i) else Inl (IndexError ''list index out of range''))"

text \<open>
  The log of utility invocations: the pair \<open>(i, idx)\<close> is written when
  \<^verbatim>\<open>utilities[idx]\<close> is called on the data point of observation \<open>i\<close>. It is
  ghost state, kept so that ``no utility function is invoked'' can be stated.
\<close>

type_synonym call = "nat \<times> nat"

text \<open>
  The inner loop \<^verbatim>\<open>for idx, utility_func in enumerate(utilities)\<close>. In
  \<^verbatim>\<open>utility_values[f'V{idx+1}'].append(utility_func(parameters, data_point))\<close>
  Python looks the column up before it calls the utility function.
\<close>

fun evaluate_point ::
  "'p \<Rightarrow> 'a dict \<Rightarrow> nat \<Rightarrow> nat \<Rightarrow> ('p, 'a, 'f) utility list \<Rightarrow> call list \<Rightarrow> 'f list dict
     \<Rightarrow> call list \<times> (exn + 'f list dict)" where
  "evaluate_point parameters dp i idx [] calls utility_values = (calls, Inr utility_values)"
| "evaluate_point parameters dp i idx (utility_func # rest) calls utility_values =
     (case map_of utility_values (V_key idx) of
        None \<Rightarrow> (calls, Inl (KeyError (V_key idx)))
      | Some col \<Rightarrow>
          (case utility_func parameters dp of
             Inl e \<Rightarrow> (calls @ [(i, idx)], Inl e)
           | Inr v \<Rightarrow>
               evaluate_point parameters dp i (Suc idx) rest (calls @ [(i, idx)])
                 (AList.update (V_key idx) (col @ [v]) utility_values)))"

text \<open>The outer loop \<^verbatim>\<open>for i in range(n_points)\<close>, over the list of indices.\<close>

fun calculate_utilities ::
  "'p \<Rightarrow> 'a list dict \<Rightarrow> ('p, 'a, 'f) utility list \<Rightarrow> nat list \<Rightarrow> call list \<Rightarrow> 'f list dict
     \<Rightarrow> call list \<times> (exn + 'f list dict)" where
  "calculate_utilities parameters data utilities [] calls utility_values =
     (calls, Inr utility_values)"
| "calculate_utilities parameters data utilities (i # is) calls utility_values =
     (case data_point data i of
        Inl e \<Rightarrow> (calls, Inl e)
      | Inr dp \<Rightarrow>
          (case evaluate_point parameters dp i 0 utilities calls utility_values of
             (calls', Inl e) \<Rightarrow> (calls', Inl e)
           | (calls', Inr utility_values') \<Rightarrow>
               calculate_utilities parameters data utilities is calls' utility_values'))"

subsection \<open>The arithmetic of the numbers\<close>

text \<open>
  What the code does with numbers: \<^verbatim>\<open>sum\<close> starts from the integer 0 and adds from
  left to right (\<open>ar_zero\<close>, \<open>ar_add\<close>), \<^verbatim>\<open>np.exp\<close> (\<open>ar_exp\<close>), the division
  \<^verbatim>\<open>exp_value / sum_exp\<close> (\<open>ar_div\<close>) and the test
  \<^verbatim>\<open>abs(total - 1) < 1e-6\<close> of the assertion (\<open>ar_close\<close>).
\<close>

record 'f arithmetic =
  ar_zero :: "'f"
  ar_add :: "'f \<Rightarrow> 'f \<Rightarrow> 'f"
  ar_exp :: "'f \<Rightarrow> 'f"
  ar_div :: "'f \<Rightarrow> 'f \<Rightarrow> 'f"
  ar_close :: "'f \<Rightarrow> bool"

text \<open>Python's \<^verbatim>\<open>sum(xs)\<close>.\<close>

definition total :: "'f arithmetic \<Rightarrow> 'f list \<Rightarrow> 'f" where
  "total A xs = foldl (ar_add A) (ar_zero A) xs"

subsection \<open>Softmax normalisation (lines 37--41)\<close>

text \<open>\<^verbatim>\<open>[np.exp(utility_values[f'V{j+1}'][i]) for j in range(len(utilities))]\<close>\<close>

fun exp_values :: "'f arithmetic \<Rightarrow> 'f list dict \<Rightarrow> nat \<Rightarrow> nat list \<Rightarrow> exn + 'f list" where
  "exp_values A utility_values i [] = Inr []"
| "exp_values A utility_values i (j # js) =
     (case cell (V_key j) utility_values i of
        Inl e \<Rightarrow> Inl e
      | Inr v \<Rightarrow>
          (case exp_values A utility_values i js of
             Inl e \<Rightarrow> Inl e
           | Inr es \<Rightarrow> Inr (ar_exp A v # es)))"

text \<open>
  \<^verbatim>\<open>for idx, exp_value in enumerate(exp_values)\<close>, appending
  \<^verbatim>\<open>exp_value / sum_exp\<close>. The division is numpy's and does not raise: a zero
  divisor gives an infinity or NaN.
\<close>

fun append_probabilities ::
  "'f arithmetic \<Rightarrow> 'f \<Rightarrow> nat \<Rightarrow> 'f list \<Rightarrow> 'f list dict \<Rightarrow> exn + 'f list dict" where
  "append_probabilities A sum_exp idx [] probabilities = Inr probabilities"
| "append_probabilities A sum_exp idx (exp_value # rest) probabilities =
     (case map_of probabilities (P_key idx) of
        None \<Rightarrow> Inl (KeyError (P_key idx))
      | Some col \<Rightarrow>
          append_probabilities A sum_exp (Suc idx) rest
            (AList.update (P_key idx) (col @ [ar_div A exp_value sum_exp]) probabilities))"

fun compute_probabilities ::
  "'f arithmetic \<Rightarrow> 'f list dict \<Rightarrow> nat \<Rightarrow> nat list \<Rightarrow> 'f list dict \<Rightarrow> exn + 'f list dict" where
  "compute_probabilities A utility_values m [] probabilities = Inr probabilities"
| "compute_probabilities A utility_values m (i # is) probabilities =
     (case exp_values A utility_values i [0..<m] of
        Inl e \<Rightarrow> Inl e
      | Inr es \<Rightarrow>
          (case append_probabilities A (total A es) 0 es probabilities of
             Inl e \<Rightarrow> Inl e
           | Inr probabilities' \<Rightarrow> compute_probabilities A utility_values m is probabilities'))"

subsection \<open>The invariant check (lines 44--46)\<close>

text \<open>The generator \<^verbatim>\<open>probabilities[f'P{j+1}'][i] for j in range(len(utilities))\<close>.\<close>

fun probability_values :: "'f list dict \<Rightarrow> nat \<Rightarrow> nat list \<Rightarrow> exn + 'f list" where
  "probability_values probabilities i [] = Inr []"
| "probability_values probabilities i (j # js) =
     (case cell (P_key j) probabilities i of
        Inl e \<Rightarrow> Inl e
      | Inr p \<Rightarrow>
          (case probability_values probabilities i js of
             Inl e \<Rightarrow> Inl e
           | Inr ps \<Rightarrow> Inr (p # ps)))"

definition assertion_message :: "nat \<Rightarrow> string" where
  "assertion_message i = ''Probabilities do not sum to 1 for data point '' @ str_nat i @ ''.''"

fun validate_probabilities ::
  "'f arithmetic \<Rightarrow> 'f list dict \<Rightarrow> nat \<Rightarrow> nat list \<Rightarrow> exn + unit" where
  "validate_probabilities A probabilities m [] = Inr ()"
| "validate_probabilities A probabilities m (i # is) =
     (case probability_values probabilities i [0..<m] of
        Inl e \<Rightarrow> Inl e
      | Inr ps \<Rightarrow>
          if ar_close A (total A ps)
          then validate_probabilities A probabilities m is
          else Inl (AssertionError (assertion_message i)))"

subsection \<open>The function\<close>

text \<open>The body of the \<^verbatim>\<open>try\<close> block (lines 19--48).\<close>

definition calculate_probabilities_try_in ::
  "'f arithmetic \<Rightarrow> 'p \<Rightarrow> 'a list dict \<Rightarrow> ('p, 'a, 'f) utility list
     \<Rightarrow> call list \<times> (exn + 'f list dict)" where
  "calculate_probabilities_try_in A parameters data utilities =
     (case validate_inputs data of
        Inl e \<Rightarrow> ([], Inl e)
      | Inr n_points \<Rightarrow>
          (case calculate_utilities parameters data utilities [0..<n_points] []
                  (init_columns V_key (length utilities)) of
             (calls, Inl e) \<Rightarrow> (calls, Inl e)
           | (calls, Inr utility_values) \<Rightarrow>
               (case compute_probabilities A utility_values (length utilities) [0..<n_points]
                       (init_columns P_key (length utilities)) of
                  Inl e \<Rightarrow> (calls, Inl e)
                | Inr probabilities \<Rightarrow>
                    (case validate_probabilities A probabilities (length utilities)
                            [0..<n_points] of
                       Inl e \<Rightarrow> (calls, Inl e)
                     | Inr _ \<Rightarrow> (calls, Inr probabilities)))))"

text \<open>
  What a call does: the lines it prints, the value it returns (\<open>None\<close> is Python's
  \<^verbatim>\<open>None\<close>) and the utility invocations it made. The handler
  \<^verbatim>\<open>except Exception as e\<close> (lines 50--52) prints \<^verbatim>\<open>f"Error: {e}"\<close> and
  returns \<^verbatim>\<open>None\<close> for every exception of the body.
\<close>

record 'f outcome =
  printed :: "string list"
  returned :: "'f list dict option"
  invoked :: "call list"

definition calculate_probabilities_in ::
  "'f arithmetic \<Rightarrow> 'p \<Rightarrow> 'a list dict \<Rightarrow> ('p, 'a, 'f) utility list \<Rightarrow> 'f outcome" where
  "calculate_probabilities_in A parameters data utilities =
     (case calculate_probabilities_try_in A parameters data utilities of
        (calls, Inl e) \<Rightarrow> \<lparr>printed = [''Error: '' @ str_exn e], returned = None, invoked = calls\<rparr>
      | (calls, Inr probabilities) \<Rightarrow>
          \<lparr>printed = [], returned = Some probabilities, invoked = calls\<rparr>)"

subsection \<open>Exact arithmetic\<close>

text \<open>The real numbers, without rounding, overflow or NaN.\<close>

definition exact_arithmetic :: "real arithmetic" where
  "exact_arithmetic =
     \<lparr>ar_zero = 0, ar_add = (+), ar_exp = exp, ar_div = (/),
      ar_close = (\<lambda>total. \<bar>total - 1\<bar> < 1 / 10 ^ 6)\<rparr>"

definition calculate_probabilities_try ::
  "'p \<Rightarrow> 'a list dict \<Rightarrow> ('p, 'a, real) utility list \<Rightarrow> call list \<times> (exn + real list dict)" where
  "calculate_probabilities_try = calculate_probabilities_try_in exact_arithmetic"

definition calculate_probabilities ::
  "'p \<Rightarrow> 'a list dict \<Rightarrow> ('p, 'a, real) utility list \<Rightarrow> real outcome" where
  "calculate_probabilities = calculate_probabilities_in exact_arithmetic"

subsection \<open>IEEE 754 binary64\<close>

text \<open>
  A float64 is a finite number, an infinity or NaN. The finite numbers of the format
  are \<open>m * pow2 e\<close> with integers \<open>\<bar>m\<bar> < 2 ^ 53\<close> and \<open>- 1074 \<le> e \<le> 971\<close>,
  where \<open>pow2 e\<close> is the power of two with the integer exponent \<open>e\<close>.
  \<open>round_double\<close> rounds a real number to the nearest of them, ties to the even
  \<open>m\<close>, and \<open>f64_of_real\<close> turns a result of \<open>pow2 1024\<close> or more into an
  infinity. The sign of a zero is not modelled, and \<^verbatim>\<open>np.exp\<close> is taken to be
  correctly rounded.
\<close>

datatype f64 = Finite real | PosInf | NegInf | NaN

definition round_half_even :: "real \<Rightarrow> int" where
  "round_half_even q =
     (if q - of_int \<lfloor>q\<rfloor> < 1 / 2 then \<lfloor>q\<rfloor>
      else if 1 / 2 < q - of_int \<lfloor>q\<rfloor> then \<lfloor>q\<rfloor> + 1
      else if even \<lfloor>q\<rfloor> then \<lfloor>q\<rfloor> else \<lfloor>q\<rfloor> + 1)"

definition pow2 :: "int \<Rightarrow> real" where
  "pow2 e = 2 powr of_int e"

definition double_exponent :: "real \<Rightarrow> int" where
  "double_exponent a = max (\<lfloor>log 2 a\<rfloor> - 52) (- 1074)"

definition round_double :: "real \<Rightarrow> real" where
  "round_double x =
     (if x = 0 then 0
      else sgn x * of_int (round_half_even (\<bar>x\<bar> / pow2 (double_exponent \<bar>x\<bar>)))
             * pow2 (double_exponent \<bar>x\<bar>))"

definition f64_of_real :: "real \<Rightarrow> f64" where
  "f64_of_real x =
     (if pow2 1024 \<le> round_double x then PosInf
      else if round_double x \<le> - pow2 1024 then NegInf
      else Finite (round_double x))"

fun f64_neg :: "f64 \<Rightarrow> f64" where
  "f64_neg (Finite a) = Finite (- a)"
| "f64_neg PosInf = NegInf"
| "f64_neg NegInf = PosInf"
| "f64_neg NaN = NaN"

fun f64_abs :: "f64 \<Rightarrow> f64" where
  "f64_abs (Finite a) = Finite \<bar>a\<bar>"
| "f64_abs PosInf = PosInf"
| "f64_abs NegInf = PosInf"
| "f64_abs NaN = NaN"

fun f64_add :: "f64 \<Rightarrow> f64 \<Rightarrow> f64" where
  "f64_add (Finite a) (Finite b) = f64_of_real (a + b)"
| "f64_add NaN y = NaN"
| "f64_add x NaN = NaN"
| "f64_add PosInf NegInf = NaN"
| "f64_add NegInf PosInf = NaN"
| "f64_add PosInf y = PosInf"
| "f64_add x PosInf = PosInf"
| "f64_add NegInf y = NegInf"
| "f64_add x NegInf = NegInf"

fun f64_div :: "f64 \<Rightarrow> f64 \<Rightarrow> f64" where
  "f64_div (Finite a) (Finite b) =
     (if b = 0 then (if a = 0 then NaN else if 0 < a then PosInf else NegInf)
      else f64_of_real (a / b))"
| "f64_div NaN y = NaN"
| "f64_div x NaN = NaN"
| "f64_div (Finite a) y = Finite 0"
| "f64_div PosInf (Finite b) = (if b < 0 then NegInf else PosInf)"
| "f64_div NegInf (Finite b) = (if b < 0 then PosInf else NegInf)"
| "f64_div x y = NaN"

fun f64_exp :: "f64 \<Rightarrow> f64" where
  "f64_exp (Finite a) = f64_of_real (exp a)"
| "f64_exp PosInf = PosInf"
| "f64_exp NegInf = Finite 0"
| "f64_exp NaN = NaN"

text \<open>\<^verbatim>\<open>x < y\<close>: false whenever a NaN is compared.\<close>

fun f64_less :: "f64 \<Rightarrow> f64 \<Rightarrow> bool" where
  "f64_less (Finite a) (Finite b) = (a < b)"
| "f64_less NaN y = False"
| "f64_less x NaN = False"
| "f64_less x NegInf = False"
| "f64_less PosInf y = False"
| "f64_less x y = True"

text \<open>
  \<^verbatim>\<open>abs(total - 1) < 1e-6\<close>: the subtraction is the addition of \<open>- 1\<close>, and the
  literal \<^verbatim>\<open>1e-6\<close> is the float64 nearest to \<open>1 / 10 ^ 6\<close>.
\<close>

definition f64_close :: "f64 \<Rightarrow> bool" where
  "f64_close t = f64_less (f64_abs (f64_add t (f64_neg (Finite 1)))) (f64_of_real (1 / 10 ^ 6))"

definition float64 :: "f64 arithmetic" where
  "float64 =
     \<lparr>ar_zero = Finite 0, ar_add = f64_add, ar_exp = f64_exp, ar_div = f64_div,
      ar_close = f64_close\<rparr>"


definition calculate_probabilities_f64 ::
  "'p \<Rightarrow> 'a list dict \<Rightarrow> ('p, 'a, f64) utility list \<Rightarrow> f64 outcome" where
  "calculate_probabilities_f64 = calculate_probabilities_in float64"

subsection \<open>Auxiliary definitions for the statements and proofs\<close>

text \<open>
  None of the following is code of the program. \<open>digit_value\<close> and \<open>nat_of_str\<close>
  read a decimal rendering back, which shows that the keys of distinct alternatives
  differ. \<open>columns key m c\<close> is the dict with the keys \<open>key 0\<close>, ..., \<open>key (m - 1)\<close>
  and the columns \<open>c j\<close>, the shape every intermediate dict of the loops has.
  \<open>utility_at\<close> is the value (or exception) of one utility function at the data point of
  observation \<open>i\<close>. \<open>probability\<close> is the entry the normalisation computes for
  alternative \<open>j\<close> from the utility values \<open>u\<close> of one observation,
  \<open>probability_table\<close> the table it fills and \<open>all_calls\<close> the invocation log of a
  run in which no utility function raises. \<open>softmax\<close> and \<open>softmax_table\<close> are the
  same over the real numbers, written with \<open>sum_list\<close>. \<open>constant_utility\<close> and
  \<open>variable_utility\<close> are example utility functions for the concrete inputs:
  \<^verbatim>\<open>lambda params, d: c\<close> and \<^verbatim>\<open>lambda params, d: d[name]\<close>.
\<close>

definition digit_value :: "char \<Rightarrow> nat" where
  "digit_value c = of_char c - 48"

definition nat_of_str :: "string \<Rightarrow> nat" where
  "nat_of_str s = foldl (\<lambda>a c. 10 * a + digit_value c) 0 s"

definition columns :: "(nat \<Rightarrow> string) \<Rightarrow> nat \<Rightarrow> (nat \<Rightarrow> 'f list) \<Rightarrow> 'f list dict" where
  "columns key m c = map (\<lambda>j. (key j, c j)) [0..<m]"

definition utility_at :: "'p \<Rightarrow> 'a list dict \<Rightarrow> ('p, 'a, 'f) utility \<Rightarrow> nat \<Rightarrow> exn + 'f" where
  "utility_at parameters data utility_func i =
     (case data_point data i of Inl e \<Rightarrow> Inl e | Inr dp \<Rightarrow> utility_func parameters dp)"

definition probability :: "'f arithmetic \<Rightarrow> (nat \<Rightarrow> 'f) \<Rightarrow> nat \<Rightarrow> nat \<Rightarrow> 'f" where
  "probability A u m j = ar_div A (ar_exp A (u j)) (total A (map (\<lambda>k. ar_exp A (u k)) [0..<m]))"

definition probability_table ::
  "'f arithmetic \<Rightarrow> (nat \<Rightarrow> nat \<Rightarrow> 'f) \<Rightarrow> nat \<Rightarrow> nat \<Rightarrow> 'f list dict" where
  "probability_table A V m n =
     columns P_key m (\<lambda>j. map (\<lambda>i. probability A (\<lambda>k. V k i) m j) [0..<n])"

definition softmax :: "(nat \<Rightarrow> real) \<Rightarrow> nat \<Rightarrow> nat \<Rightarrow> real" where
  "softmax u m j = exp (u j) / sum_list (map (\<lambda>k. exp (u k)) [0..<m])"

definition all_calls :: "nat \<Rightarrow> nat \<Rightarrow> call list" where
  "all_calls n m = concat (map (\<lambda>i. map (\<lambda>j. (i, j)) [0..<m]) [0..<n])"

definition softmax_table :: "(nat \<Rightarrow> nat \<Rightarrow> real) \<Rightarrow> nat \<Rightarrow> nat \<Rightarrow> real list dict" where
  "softmax_table V m n = columns P_key m (\<lambda>j. map (\<lambda>i. softmax (\<lambda>k. V k i) m j) [0..<n])"

definition constant_utility :: "'f \<Rightarrow> ('p, 'a, 'f) utility" where
  "constant_utility c = (\<lambda>parameters d. Inr c)"

definition variable_utility :: "string \<Rightarrow> ('p, 'f, 'f) utility" where
  "variable_utility name =
     (\<lambda>parameters d. case map_of d name of None \<Rightarrow> Inl (KeyError name) | Some x \<Rightarrow> Inr x)"

text \<open>\<open>f64_nonneg\<close> holds of the float64 that are zero, positive or \<open>+\<infinity>\<close>.\<close>

fun f64_nonneg :: "f64 \<Rightarrow> bool" where
  "f64_nonneg (Finite r) = (0 \<le> r)"
| "f64_nonneg PosInf = True"
| "f64_nonneg NegInf = False"
| "f64_nonneg NaN = False"

section \<open>Properties of the loops\<close>

lemma digit_value_digit_char: "d < 10 \<Longrightarrow> digit_value (digit_char d) = d"
proof -
  assume "d < 10"
  then have "d \<in> {0,1,2,3,4,5,6,7,8,9}" by auto
  then show ?thesis by (auto simp: digit_value_def digit_char_def)
qed

lemma nat_of_str_snoc: "nat_of_str (s @ [c]) = 10 * nat_of_str s + digit_value c"
  by (simp add: nat_of_str_def)

lemma nat_of_str_str_nat: "nat_of_str (str_nat n) = n"
proof (induction n rule: str_nat.induct)
  case (1 n)
  show ?case
  proof (cases "n < 10")
    case True
    then show ?thesis
      using nat_of_str_snoc [of "[]" "digit_char n"]
      by (simp add: str_nat.simps [of n] digit_value_digit_char nat_of_str_def)
  next
    case False
    with 1 have "nat_of_str (str_nat (n div 10)) = n div 10" by simp
    with False show ?thesis
      by (simp add: str_nat.simps [of n] nat_of_str_snoc digit_value_digit_char)
  qed
qed

lemma inj_str_nat: "inj str_nat"
  by (rule inj_on_inverseI [where g = nat_of_str]) (rule nat_of_str_str_nat)

lemma inj_V_key: "inj V_key"
  using inj_str_nat by (auto simp: inj_def V_key_def)

lemma inj_P_key: "inj P_key"
  using inj_str_nat by (auto simp: inj_def P_key_def)

lemma str_nat_digit: "n < 10 \<Longrightarrow> str_nat n = [digit_char n]"
  by (simp add: str_nat.simps)

lemma P_key_0: "P_key 0 = ''P1''"
  by (simp add: P_key_def str_nat_digit digit_char_def)

lemma P_key_1: "P_key 1 = ''P2''"
  by (simp add: P_key_def str_nat_digit digit_char_def)

lemma update_map_absent:
  "k \<notin> fst ` set al \<Longrightarrow> AList.update k v al = al @ [(k, v)]"
  by (induction al) auto

lemma init_columns_eq:
  assumes "inj key" shows "init_columns key m = columns key m (\<lambda>_. [])"
proof -
  have "fold (\<lambda>i d. AList.update (key i) [] d) [0..<m] [] = map (\<lambda>j. (key j, [])) [0..<m]"
  proof (induction m)
    case 0 show ?case by simp
  next
    case (Suc m)
    have "key m \<notin> fst ` set (map (\<lambda>j. (key j, [])) [0..<m])"
      using assms by (auto dest: injD)
    then have "AList.update (key m) [] (map (\<lambda>j. (key j, [])) [0..<m])
        = map (\<lambda>j. (key j, [])) [0..<m] @ [(key m, [])]"
      by (rule update_map_absent)
    then show ?case using Suc by simp
  qed
  then show ?thesis by (simp add: init_columns_def columns_def)
qed

lemma map_of_columns:
  assumes "inj key"
  shows "map_of (columns key m c) (key j) = (if j < m then Some (c j) else None)"
proof -
  have "map_of (map (\<lambda>j. (key j, c j)) js) (key j) = (if j \<in> set js then Some (c j) else None)" for js
    using assms by (induction js) (auto simp: inj_def)
  then show ?thesis by (simp add: columns_def)
qed

lemma update_columns:
  assumes "inj key" "j < m"
  shows "AList.update (key j) v (columns key m c) = columns key m (c(j := v))"
proof -
  have "AList.update (key j) v (map (\<lambda>j. (key j, c j)) js) = map (\<lambda>j'. (key j', (c(j := v)) j')) js"
    if "j \<in> set js" "distinct js" for js
    using that assms(1) by (induction js) (auto dest: injD)
  then show ?thesis using assms(2) by (simp add: columns_def)
qed

lemma columns_cong: "(\<And>j. j < m \<Longrightarrow> c j = c' j) \<Longrightarrow> columns key m c = columns key m c'"
  by (simp add: columns_def)

lemma evaluate_point_columns:
  assumes "idx + length fs \<le> m"
    and "\<forall>k<length fs. (fs ! k) ps dp = Inr (g (idx + k))"
  shows "evaluate_point ps dp i idx fs calls (columns V_key m c) =
           (calls @ map (\<lambda>k. (i, k)) [idx..<idx + length fs],
            Inr (columns V_key m (\<lambda>j. if idx \<le> j \<and> j < idx + length fs then c j @ [g j] else c j)))"
  using assms
proof (induction fs arbitrary: idx calls c)
  case Nil
  have "(\<lambda>j. if idx \<le> j \<and> j < idx + length ([] :: ('a, 'b, 'c) utility list) then c j @ [g j] else c j) = c"
    by (rule ext) auto
  then show ?case by simp
next
  case (Cons f fs)
  have lt: "idx < m" using Cons.prems(1) by simp
  have f: "f ps dp = Inr (g idx)" using Cons.prems(2) by force
  have rest: "\<forall>k<length fs. (fs ! k) ps dp = Inr (g (Suc idx + k))"
    using Cons.prems(2) by force
  have le: "Suc idx + length fs \<le> m" using Cons.prems(1) by simp
  have cols: "(\<lambda>j. if Suc idx \<le> j \<and> j < Suc idx + length fs
                  then (c(idx := c idx @ [g idx])) j @ [g j] else (c(idx := c idx @ [g idx])) j)
            = (\<lambda>j. if idx \<le> j \<and> j < idx + length (f # fs) then c j @ [g j] else c j)"
    by (rule ext) auto
  have calls: "(calls @ [(i, idx)]) @ map (\<lambda>k. (i, k)) [Suc idx..<Suc idx + length fs]
            = calls @ map (\<lambda>k. (i, k)) [idx..<idx + length (f # fs)]"
    by (simp add: upt_conv_Cons del: upt_Suc)
  have "evaluate_point ps dp i idx (f # fs) calls (columns V_key m c)
      = evaluate_point ps dp i (Suc idx) fs (calls @ [(i, idx)])
          (columns V_key m (c(idx := c idx @ [g idx])))"
    by (simp add: map_of_columns [OF inj_V_key] lt f update_columns [OF inj_V_key lt]
             del: fun_upd_apply)
  also have "\<dots> = ((calls @ [(i, idx)]) @ map (\<lambda>k. (i, k)) [Suc idx..<Suc idx + length fs],
            Inr (columns V_key m (\<lambda>j. if Suc idx \<le> j \<and> j < Suc idx + length fs
                  then (c(idx := c idx @ [g idx])) j @ [g j] else (c(idx := c idx @ [g idx])) j)))"
    by (rule Cons.IH [OF le rest])
  also have "\<dots> = (calls @ map (\<lambda>k. (i, k)) [idx..<idx + length (f # fs)],
            Inr (columns V_key m (\<lambda>j. if idx \<le> j \<and> j < idx + length (f # fs) then c j @ [g j] else c j)))"
    by (simp only: cols calls)
  finally show ?case .
qed

lemma calculate_utilities_columns:
  assumes "\<forall>i\<in>set is. \<forall>j<length fs. utility_at ps data (fs ! j) i = Inr (V j i)"
    and "\<forall>i\<in>set is. \<exists>dp. data_point data i = Inr dp"
  shows "calculate_utilities ps data fs is calls (columns V_key (length fs) c) =
           (calls @ concat (map (\<lambda>i. map (\<lambda>j. (i, j)) [0..<length fs]) is),
            Inr (columns V_key (length fs) (\<lambda>j. c j @ map (V j) is)))"
  using assms
proof (induction "is" arbitrary: calls c)
  case Nil
  then show ?case by simp
next
  case (Cons i "is")
  obtain dp where dp: "data_point data i = Inr dp" using Cons.prems(2) by auto
  have vals: "\<forall>k<length fs. (fs ! k) ps dp = Inr (V (0 + k) i)"
    using Cons.prems(1) dp by (simp add: utility_at_def)
  have step: "evaluate_point ps dp i 0 fs calls (columns V_key (length fs) c) =
           (calls @ map (\<lambda>k. (i, k)) [0..<length fs],
            Inr (columns V_key (length fs) (\<lambda>j. if j < length fs then c j @ [V j i] else c j)))"
    using evaluate_point_columns [of 0 fs "length fs" ps dp "\<lambda>j. V j i" i calls c] vals by simp
  have cols: "columns V_key (length fs) (\<lambda>j. if j < length fs then c j @ [V j i] else c j)
            = columns V_key (length fs) (\<lambda>j. c j @ [V j i])"
    by (simp add: columns_def)
  have IH: "calculate_utilities ps data fs is (calls @ map (\<lambda>k. (i, k)) [0..<length fs])
              (columns V_key (length fs) (\<lambda>j. c j @ [V j i])) =
           ((calls @ map (\<lambda>k. (i, k)) [0..<length fs]) @ concat (map (\<lambda>i. map (\<lambda>j. (i, j)) [0..<length fs]) is),
            Inr (columns V_key (length fs) (\<lambda>j. (c j @ [V j i]) @ map (V j) is)))"
    using Cons.prems by (intro Cons.IH) auto
  show ?case
    by (simp add: dp step cols IH)
qed

lemma probability_values_columns:
  assumes "\<forall>j\<in>set js. j < m \<and> i < length (c j)"
  shows "probability_values (columns P_key m c) i js = Inr (map (\<lambda>j. c j ! i) js)"
  using assms by (induction js) (simp_all add: cell_def map_of_columns [OF inj_P_key])

lemma exp_values_columns:
  assumes "\<forall>j\<in>set js. j < m \<and> i < length (c j)"
  shows "exp_values A (columns V_key m c) i js = Inr (map (\<lambda>j. ar_exp A (c j ! i)) js)"
  using assms by (induction js) (simp_all add: cell_def map_of_columns [OF inj_V_key])

lemma append_probabilities_columns:
  fixes A :: "'f arithmetic" and es :: "'f list"
  assumes "idx + length es \<le> m"
  shows "append_probabilities A s idx es (columns P_key m c) =
           Inr (columns P_key m
                  (\<lambda>j. if idx \<le> j \<and> j < idx + length es
                       then c j @ [ar_div A (es ! (j - idx)) s] else c j))"
  using assms
proof (induction es arbitrary: idx c)
  case Nil
  have "(\<lambda>j. if idx \<le> j \<and> j < idx + length ([] :: 'f list)
             then c j @ [ar_div A (([] :: 'f list) ! (j - idx)) s] else c j) = c"
    by (rule ext) auto
  then show ?case by simp
next
  case (Cons e es)
  have lt: "idx < m" using Cons.prems by simp
  have le: "Suc idx + length es \<le> m" using Cons.prems by simp
  have cols: "(\<lambda>j. if Suc idx \<le> j \<and> j < Suc idx + length es
                  then (c(idx := c idx @ [ar_div A e s])) j @ [ar_div A (es ! (j - Suc idx)) s]
                  else (c(idx := c idx @ [ar_div A e s])) j)
            = (\<lambda>j. if idx \<le> j \<and> j < idx + length (e # es)
                   then c j @ [ar_div A ((e # es) ! (j - idx)) s] else c j)"
    by (rule ext) (auto simp: nth_Cons' Suc_diff_le)
  have "append_probabilities A s idx (e # es) (columns P_key m c)
      = append_probabilities A s (Suc idx) es (columns P_key m (c(idx := c idx @ [ar_div A e s])))"
    by (simp add: map_of_columns [OF inj_P_key] lt update_columns [OF inj_P_key lt]
             del: fun_upd_apply)
  also have "\<dots> = Inr (columns P_key m (\<lambda>j. if Suc idx \<le> j \<and> j < Suc idx + length es
                  then (c(idx := c idx @ [ar_div A e s])) j @ [ar_div A (es ! (j - Suc idx)) s]
                  else (c(idx := c idx @ [ar_div A e s])) j))"
    by (rule Cons.IH [OF le])
  also have "\<dots> = Inr (columns P_key m
       (\<lambda>j. if idx \<le> j \<and> j < idx + length (e # es)
            then c j @ [ar_div A ((e # es) ! (j - idx)) s] else c j))"
    by (simp only: cols)
  finally show ?case .
qed

lemma compute_probabilities_columns:
  assumes "\<forall>i\<in>set is. \<forall>j<m. i < length (v j)"
  shows "compute_probabilities A (columns V_key m v) m is (columns P_key m c) =
           Inr (columns P_key m (\<lambda>j. c j @ map (\<lambda>i. probability A (\<lambda>k. v k ! i) m j) is))"
  using assms
proof (induction "is" arbitrary: c)
  case Nil
  then show ?case by simp
next
  case (Cons i "is")
  let ?es = "map (\<lambda>j. ar_exp A (v j ! i)) [0..<m]"
  have es: "exp_values A (columns V_key m v) i [0..<m] = Inr ?es"
    using Cons.prems by (intro exp_values_columns) simp
  have "append_probabilities A (total A ?es) 0 ?es (columns P_key m c) =
          Inr (columns P_key m (\<lambda>j. if 0 \<le> j \<and> j < 0 + length ?es
                 then c j @ [ar_div A (?es ! (j - 0)) (total A ?es)] else c j))"
    by (rule append_probabilities_columns) simp
  also have "columns P_key m (\<lambda>j. if 0 \<le> j \<and> j < 0 + length ?es
                 then c j @ [ar_div A (?es ! (j - 0)) (total A ?es)] else c j)
           = columns P_key m (\<lambda>j. c j @ [probability A (\<lambda>k. v k ! i) m j])"
    by (rule columns_cong) (simp add: probability_def)
  finally have app: "append_probabilities A (total A ?es) 0 ?es (columns P_key m c) =
          Inr (columns P_key m (\<lambda>j. c j @ [probability A (\<lambda>k. v k ! i) m j]))" .
  have IH: "compute_probabilities A (columns V_key m v) m is
              (columns P_key m (\<lambda>j. c j @ [probability A (\<lambda>k. v k ! i) m j])) =
           Inr (columns P_key m
             (\<lambda>j. (c j @ [probability A (\<lambda>k. v k ! i) m j])
                    @ map (\<lambda>i. probability A (\<lambda>k. v k ! i) m j) is))"
    using Cons.prems by (intro Cons.IH) simp
  show ?case
    by (simp add: es app IH)
qed

lemma validate_probabilities_columns:
  assumes "\<forall>i\<in>set is. \<forall>j<m. i < length (c j)"
    and "\<forall>i\<in>set is. ar_close A (total A (map (\<lambda>j. c j ! i) [0..<m]))"
  shows "validate_probabilities A (columns P_key m c) m is = Inr ()"
  using assms
proof (induction "is")
  case Nil then show ?case by simp
next
  case (Cons i "is")
  have "probability_values (columns P_key m c) i [0..<m] = Inr (map (\<lambda>j. c j ! i) [0..<m])"
    using Cons.prems(1) by (intro probability_values_columns) simp
  then show ?case using Cons by simp
qed

lemma validate_probabilities_fails:
  assumes "\<forall>i\<in>set is. \<forall>j<m. i < length (c j)"
    and "\<exists>i\<in>set is. \<not> ar_close A (total A (map (\<lambda>j. c j ! i) [0..<m]))"
  shows "\<exists>i\<in>set is. \<not> ar_close A (total A (map (\<lambda>j. c j ! i) [0..<m])) \<and>
           validate_probabilities A (columns P_key m c) m is =
             Inl (AssertionError (assertion_message i))"
  using assms
proof (induction "is")
  case Nil then show ?case by simp
next
  case (Cons i "is")
  have pv: "probability_values (columns P_key m c) i [0..<m] = Inr (map (\<lambda>j. c j ! i) [0..<m])"
    using Cons.prems(1) by (intro probability_values_columns) simp
  show ?case
  proof (cases "ar_close A (total A (map (\<lambda>j. c j ! i) [0..<m]))")
    case True
    with Cons.prems(2) have "\<exists>i\<in>set is. \<not> ar_close A (total A (map (\<lambda>j. c j ! i) [0..<m]))"
      by auto
    from Cons.IH [OF _ this] Cons.prems(1)
    obtain i' where "i' \<in> set is" "\<not> ar_close A (total A (map (\<lambda>j. c j ! i') [0..<m]))"
      "validate_probabilities A (columns P_key m c) m is = Inl (AssertionError (assertion_message i'))"
      by auto
    with True pv show ?thesis by (intro bexI [of _ i']) simp_all
  next
    case False
    with pv show ?thesis by (intro bexI [of _ i]) simp_all
  qed
qed

lemma check_lengths_ok:
  "check_lengths n data = Inr () \<longleftrightarrow> (\<forall>(key, values)\<in>set data. length values = n)"
  by (induction data) (auto split: if_splits)

lemma check_lengths_find:
  "find (\<lambda>(key, values). length values \<noteq> n) data = Some (key, values) \<Longrightarrow>
     check_lengths n data = Inl (ValueError (mismatch_message key n (length values)))"
  by (induction data) (auto split: if_splits)

lemma validate_inputs_empty: "validate_inputs [] = Inl StopIteration"
  by (simp add: validate_inputs_def first_length_def)

lemma validate_inputs_ok:
  "validate_inputs data = Inr n \<longleftrightarrow> data \<noteq> [] \<and> (\<forall>(key, values)\<in>set data. length values = n)"
proof (cases data)
  case Nil
  then show ?thesis by (simp add: validate_inputs_def first_length_def)
next
  case (Cons kv rest)
  obtain k vs where kv: "kv = (k, vs)" by (cases kv)
  have "check_lengths (length vs) rest = Inr () \<longleftrightarrow> (\<forall>(key, values)\<in>set rest. length values = length vs)"
    by (rule check_lengths_ok)
  then show ?thesis
    unfolding Cons kv
    by (cases "check_lengths (length vs) rest") (auto simp: validate_inputs_def first_length_def)
qed

lemma validate_inputs_shape:
  "data \<noteq> [] \<Longrightarrow> \<forall>(key, values)\<in>set data. length values = n \<Longrightarrow> validate_inputs data = Inr n"
  by (simp add: validate_inputs_ok)

lemma data_point_from_ok:
  "\<forall>(key, values)\<in>set data. i < length values \<Longrightarrow> \<exists>dp'. data_point_from data i dp = Inr dp'"
  by (induction data arbitrary: dp) auto

lemma data_point_ok:
  "\<forall>(key, values)\<in>set data. length values = n \<Longrightarrow> i < n \<Longrightarrow> \<exists>dp. data_point data i = Inr dp"
  unfolding data_point_def by (rule data_point_from_ok) auto

lemma find_mismatch:
  assumes "\<exists>(key, values)\<in>set data. length values \<noteq> n"
  shows "\<exists>key values. find (\<lambda>(key, values). length values \<noteq> n) data = Some (key, values) \<and>
           (key, values) \<in> set data \<and> length values \<noteq> n"
  using assms
proof (induction data)
  case Nil
  then show ?case by simp
next
  case (Cons kv data)
  obtain k vs where kv: "kv = (k, vs)" by (cases kv)
  show ?case
  proof (cases "length vs \<noteq> n")
    case True
    then show ?thesis unfolding kv by simp
  next
    case False
    with Cons.prems have "\<exists>(key, values)\<in>set data. length values \<noteq> n"
      unfolding kv by simp
    from Cons.IH [OF this] False show ?thesis unfolding kv by auto
  qed
qed

lemma utility_at_constant:
  "data_point data i = Inr dp \<Longrightarrow> utility_at ps data (constant_utility c) i = Inr c"
  by (simp add: utility_at_def constant_utility_def)

lemma all_calls_no_utilities: "all_calls n 0 = []"
  by (simp add: all_calls_def)

lemma evaluates_choice:
  assumes "\<forall>i<n. \<forall>j<length fs. \<exists>v. utility_at ps data (fs ! j) i = Inr v"
  shows "\<forall>i<n. \<forall>j<length fs. utility_at ps data (fs ! j) i
           = Inr ((\<lambda>j i. projr (utility_at ps data (fs ! j) i)) j i)"
  using assms by force

lemma evaluate_point_raises:
  assumes "idx + length fs \<le> m"
    and "\<exists>k<length fs. \<exists>e. (fs ! k) ps dp = Inl e"
  shows "\<exists>calls' k e. k < length fs \<and> (fs ! k) ps dp = Inl e \<and>
           evaluate_point ps dp i idx fs calls (columns V_key m c) = (calls', Inl e)"
  using assms
proof (induction fs arbitrary: idx calls c)
  case Nil
  then show ?case by simp
next
  case (Cons f fs)
  have lt: "idx < m" using Cons.prems(1) by simp
  show ?case
  proof (cases "f ps dp")
    case (Inl e)
    then have "evaluate_point ps dp i idx (f # fs) calls (columns V_key m c) = (calls @ [(i, idx)], Inl e)"
      by (simp add: map_of_columns [OF inj_V_key] lt)
    with Inl show ?thesis by (intro exI [of _ "calls @ [(i, idx)]"] exI [of _ 0] exI [of _ e]) simp
  next
    case (Inr v)
    have step: "evaluate_point ps dp i idx (f # fs) calls (columns V_key m c)
      = evaluate_point ps dp i (Suc idx) fs (calls @ [(i, idx)])
          (columns V_key m (c(idx := c idx @ [v])))"
      by (simp add: map_of_columns [OF inj_V_key] lt Inr update_columns [OF inj_V_key lt]
             del: fun_upd_apply)
    from Cons.prems(2) obtain k e where k: "k < length (f # fs)" "((f # fs) ! k) ps dp = Inl e"
      by blast
    with Inr have "k \<noteq> 0" by (cases k) auto
    then obtain k' where k': "k = Suc k'" by (cases k) auto
    with k have ex: "\<exists>k<length fs. \<exists>e. (fs ! k) ps dp = Inl e" by auto
    have le: "Suc idx + length fs \<le> m" using Cons.prems(1) by simp
    from Cons.IH [OF le ex, of "calls @ [(i, idx)]" "c(idx := c idx @ [v])"]
    obtain calls' k2 e2 where r: "k2 < length fs" "(fs ! k2) ps dp = Inl e2"
      "evaluate_point ps dp i (Suc idx) fs (calls @ [(i, idx)])
          (columns V_key m (c(idx := c idx @ [v]))) = (calls', Inl e2)"
      by blast
    show ?thesis
      using r step by (intro exI [of _ calls'] exI [of _ "Suc k2"] exI [of _ e2]) simp
  qed
qed

lemma calculate_utilities_raises:
  assumes "\<exists>i\<in>set is. \<exists>j<length fs. \<exists>e. utility_at ps data (fs ! j) i = Inl e"
    and "\<forall>i\<in>set is. \<exists>dp. data_point data i = Inr dp"
  shows "\<exists>calls' i j e. i \<in> set is \<and> j < length fs \<and> utility_at ps data (fs ! j) i = Inl e \<and>
           calculate_utilities ps data fs is calls (columns V_key (length fs) c) = (calls', Inl e)"
  using assms
proof (induction "is" arbitrary: calls c)
  case Nil
  then show ?case by simp
next
  case (Cons i "is")
  obtain dp where dp: "data_point data i = Inr dp" using Cons.prems(2) by auto
  show ?case
  proof (cases "\<exists>j<length fs. \<exists>e. utility_at ps data (fs ! j) i = Inl e")
    case True
    then have "\<exists>k<length fs. \<exists>e. (fs ! k) ps dp = Inl e"
      by (simp add: utility_at_def dp)
    from evaluate_point_raises [OF _ this, of 0 "length fs" i calls c]
    obtain calls' k e where r: "k < length fs" "(fs ! k) ps dp = Inl e"
      "evaluate_point ps dp i 0 fs calls (columns V_key (length fs) c) = (calls', Inl e)"
      by auto
    then have "utility_at ps data (fs ! k) i = Inl e" by (simp add: utility_at_def dp)
    with r show ?thesis
      by (intro exI [of _ calls'] exI [of _ i] exI [of _ k] exI [of _ e]) (simp add: dp)
  next
    case False
    then have "\<forall>j<length fs. \<exists>v. utility_at ps data (fs ! j) i = Inr v"
      by (metis sum.exhaust)
    then have "\<forall>k<length fs. (fs ! k) ps dp = Inr (projr ((fs ! (0 + k)) ps dp))"
      by (auto simp: utility_at_def dp)
    from evaluate_point_columns [OF _ this, of "length fs" i calls c]
    have step: "evaluate_point ps dp i 0 fs calls (columns V_key (length fs) c) =
       (calls @ map (Pair i) [0..<0 + length fs],
        Inr (columns V_key (length fs)
          (\<lambda>j. if 0 \<le> j \<and> j < 0 + length fs then c j @ [projr ((fs ! j) ps dp)] else c j)))"
      by simp
    from False Cons.prems(1)
    have ex: "\<exists>i\<in>set is. \<exists>j<length fs. \<exists>e. utility_at ps data (fs ! j) i = Inl e"
      by auto
    have dps: "\<forall>i\<in>set is. \<exists>dp. data_point data i = Inr dp" using Cons.prems(2) by simp
    from Cons.IH [OF ex dps]
    obtain calls' i' j e where r: "i' \<in> set is" "j < length fs"
      "utility_at ps data (fs ! j) i' = Inl e"
      "calculate_utilities ps data fs is (calls @ map (Pair i) [0..<0 + length fs])
         (columns V_key (length fs)
          (\<lambda>j. if 0 \<le> j \<and> j < 0 + length fs then c j @ [projr ((fs ! j) ps dp)] else c j))
        = (calls', Inl e)"
      by blast
    show ?thesis
      using r by (intro exI [of _ calls'] exI [of _ i'] exI [of _ j] exI [of _ e]) (simp add: dp step)
  qed
qed

section \<open>Properties of the function, for every arithmetic\<close>

lemma try_in_mismatch:
  assumes "first_length data = Inr n"
    and "find (\<lambda>(key, values). length values \<noteq> n) data = Some (key, values)"
  shows "calculate_probabilities_try_in A ps data fs =
           ([], Inl (ValueError (mismatch_message key n (length values))))"
  using assms check_lengths_find [OF assms(2)]
  by (simp add: calculate_probabilities_try_in_def validate_inputs_def)

lemma in_raises:
  "calculate_probabilities_try_in A ps data fs = (calls, Inl e) \<Longrightarrow>
     calculate_probabilities_in A ps data fs =
       \<lparr>printed = [''Error: '' @ str_exn e], returned = None, invoked = calls\<rparr>"
  by (simp add: calculate_probabilities_in_def)

lemma in_returns:
  "calculate_probabilities_try_in A ps data fs = (calls, Inr P) \<Longrightarrow>
     calculate_probabilities_in A ps data fs =
       \<lparr>printed = [], returned = Some P, invoked = calls\<rparr>"
  by (simp add: calculate_probabilities_in_def)

lemma try_in_utility_raises:
  assumes valid: "validate_inputs data = Inr n"
    and "\<exists>i<n. \<exists>j<length fs. \<exists>e. utility_at ps data (fs ! j) i = Inl e"
  shows "\<exists>calls i j e. i < n \<and> j < length fs \<and> utility_at ps data (fs ! j) i = Inl e \<and>
           calculate_probabilities_try_in A ps data fs = (calls, Inl e)"
proof -
  have shape: "\<forall>(key, values)\<in>set data. length values = n"
    using valid by (simp add: validate_inputs_ok)
  have dps: "\<forall>i\<in>set [0..<n]. \<exists>dp. data_point data i = Inr dp"
    using data_point_ok [OF shape] by simp
  have ex: "\<exists>i\<in>set [0..<n]. \<exists>j<length fs. \<exists>e. utility_at ps data (fs ! j) i = Inl e"
  proof -
    from assms(2) obtain i j e where "i < n" "j < length fs" "utility_at ps data (fs ! j) i = Inl e"
      by blast
    then show ?thesis by (intro bexI [of _ i]) auto
  qed
  from calculate_utilities_raises [OF ex dps, of "[]" "\<lambda>_. []"]
  obtain calls i j e where r: "i \<in> set [0..<n]" "j < length fs"
     "utility_at ps data (fs ! j) i = Inl e"
     "calculate_utilities ps data fs [0..<n] [] (columns V_key (length fs) (\<lambda>_. [])) = (calls, Inl e)"
    by blast
  then have "calculate_probabilities_try_in A ps data fs = (calls, Inl e)"
    using valid by (simp add: calculate_probabilities_try_in_def init_columns_eq [OF inj_V_key])
  with r show ?thesis by (intro exI [of _ calls] exI [of _ i] exI [of _ j] exI [of _ e]) simp
qed

lemma try_in_valid:
  assumes valid: "validate_inputs data = Inr n"
    and vals: "\<forall>i<n. \<forall>j<length fs. utility_at ps data (fs ! j) i = Inr (V j i)"
  shows "calculate_probabilities_try_in A ps data fs =
           (all_calls n (length fs),
            case validate_probabilities A (probability_table A V (length fs) n) (length fs) [0..<n] of
              Inl e \<Rightarrow> Inl e
            | Inr _ \<Rightarrow> Inr (probability_table A V (length fs) n))"
proof -
  let ?m = "length fs"
  have shape: "\<forall>(key, values)\<in>set data. length values = n"
    using valid by (simp add: validate_inputs_ok)
  have dps: "\<forall>i\<in>set [0..<n]. \<exists>dp. data_point data i = Inr dp"
    using data_point_ok [OF shape] by simp
  have "calculate_utilities ps data fs [0..<n] [] (columns V_key ?m (\<lambda>_. [])) =
          ([] @ concat (map (\<lambda>i. map (\<lambda>j. (i, j)) [0..<?m]) [0..<n]),
           Inr (columns V_key ?m (\<lambda>j. [] @ map (V j) [0..<n])))"
    using vals dps by (intro calculate_utilities_columns) simp_all
  then have util: "calculate_utilities ps data fs [0..<n] [] (init_columns V_key ?m) =
          (all_calls n ?m, Inr (columns V_key ?m (\<lambda>j. map (V j) [0..<n])))"
    by (simp add: init_columns_eq [OF inj_V_key] all_calls_def)
  have "compute_probabilities A (columns V_key ?m (\<lambda>j. map (V j) [0..<n])) ?m [0..<n]
          (columns P_key ?m (\<lambda>_. [])) =
        Inr (columns P_key ?m
          (\<lambda>j. [] @ map (\<lambda>i. probability A (\<lambda>k. map (V k) [0..<n] ! i) ?m j) [0..<n]))"
    by (intro compute_probabilities_columns) simp
  also have "columns P_key ?m
          (\<lambda>j. [] @ map (\<lambda>i. probability A (\<lambda>k. map (V k) [0..<n] ! i) ?m j) [0..<n])
        = probability_table A V ?m n"
    unfolding probability_table_def by (rule columns_cong) simp
  finally have prob: "compute_probabilities A (columns V_key ?m (\<lambda>j. map (V j) [0..<n])) ?m [0..<n]
          (init_columns P_key ?m) = Inr (probability_table A V ?m n)"
    by (simp add: init_columns_eq [OF inj_P_key])
  show ?thesis
    using valid util prob
    by (simp add: calculate_probabilities_try_in_def split: sum.splits)
qed


lemma map_of_probability_table:
  "j < m \<Longrightarrow> map_of (probability_table A V m n) (P_key j)
     = Some (map (\<lambda>i. probability A (\<lambda>k. V k i) m j) [0..<n])"
  by (simp add: probability_table_def map_of_columns [OF inj_P_key])

lemma cell_probability_table:
  "j < m \<Longrightarrow> i < n \<Longrightarrow>
     cell (P_key j) (probability_table A V m n) i = Inr (probability A (\<lambda>k. V k i) m j)"
  by (simp add: cell_def map_of_probability_table)

lemma validate_probability_table:
  "validate_probabilities A (probability_table A V m n) m [0..<n] = Inr () \<longleftrightarrow>
     (\<forall>i<n. ar_close A (total A (map (probability A (\<lambda>k. V k i) m) [0..<m])))"
proof -
  let ?c = "\<lambda>j. map (\<lambda>i. probability A (\<lambda>k. V k i) m j) [0..<n]"
  have range: "\<forall>i\<in>set [0..<n]. \<forall>j<m. i < length (?c j)" by simp
  have row: "map (\<lambda>j. ?c j ! i) [0..<m] = map (probability A (\<lambda>k. V k i) m) [0..<m]" if "i < n" for i
    using that by simp
  show ?thesis
  proof
    assume ok: "validate_probabilities A (probability_table A V m n) m [0..<n] = Inr ()"
    show "\<forall>i<n. ar_close A (total A (map (probability A (\<lambda>k. V k i) m) [0..<m]))"
    proof (rule ccontr)
      assume "\<not> (\<forall>i<n. ar_close A (total A (map (probability A (\<lambda>k. V k i) m) [0..<m])))"
      then obtain i where i: "i < n" "\<not> ar_close A (total A (map (probability A (\<lambda>k. V k i) m) [0..<m]))"
        by blast
      then have "\<exists>i\<in>set [0..<n]. \<not> ar_close A (total A (map (\<lambda>j. ?c j ! i) [0..<m]))"
        using row [OF i(1)] by (intro bexI [of _ i]) simp_all
      from validate_probabilities_fails [OF range this]
      obtain i' where "validate_probabilities A (columns P_key m ?c) m [0..<n]
                        = Inl (AssertionError (assertion_message i'))"
        by blast
      with ok show False by (simp add: probability_table_def)
    qed
  next
    assume all: "\<forall>i<n. ar_close A (total A (map (probability A (\<lambda>k. V k i) m) [0..<m]))"
    have "\<forall>i\<in>set [0..<n]. ar_close A (total A (map (\<lambda>j. ?c j ! i) [0..<m]))"
    proof
      fix i assume "i \<in> set [0..<n]"
      then have "i < n" by simp
      with all row [OF this] show "ar_close A (total A (map (\<lambda>j. ?c j ! i) [0..<m]))"
        by simp
    qed
    from validate_probabilities_columns [OF range this]
    show "validate_probabilities A (probability_table A V m n) m [0..<n] = Inr ()"
      by (simp add: probability_table_def)
  qed
qed

text \<open>
  What a returned table says about the run: the shapes were valid, every utility
  function returned a number at every observation, the table is the table of the
  normalisation and every row passed the test of the assertion.
\<close>

lemma returned_table:
  assumes "returned (calculate_probabilities_in A ps data fs) = Some P"
  shows "\<exists>n V. validate_inputs data = Inr n \<and>
           (\<forall>i<n. \<forall>j<length fs. utility_at ps data (fs ! j) i = Inr (V j i)) \<and>
           P = probability_table A V (length fs) n \<and>
           (\<forall>i<n. ar_close A (total A (map (probability A (\<lambda>k. V k i) (length fs)) [0..<length fs])))"
proof (cases "validate_inputs data")
  case (Inl e)
  then have "calculate_probabilities_try_in A ps data fs = ([], Inl e)"
    by (simp add: calculate_probabilities_try_in_def)
  from in_raises [OF this] assms show ?thesis by simp
next
  case (Inr n)
  show ?thesis
  proof (cases "\<exists>i<n. \<exists>j<length fs. \<exists>e. utility_at ps data (fs ! j) i = Inl e")
    case True
    from try_in_utility_raises [OF Inr True, of A]
    obtain calls i j e where "i < n \<and> j < length fs \<and> utility_at ps data (fs ! j) i = Inl e \<and>
           calculate_probabilities_try_in A ps data fs = (calls, Inl e)"
      by (elim exE)
    then have "calculate_probabilities_try_in A ps data fs = (calls, Inl e)" by simp
    from in_raises [OF this] assms show ?thesis by simp
  next
    case False
    have "\<forall>i<n. \<forall>j<length fs. \<exists>v. utility_at ps data (fs ! j) i = Inr v"
    proof (intro allI impI)
      fix i j assume "i < n" "j < length fs"
      with False show "\<exists>v. utility_at ps data (fs ! j) i = Inr v"
        by (cases "utility_at ps data (fs ! j) i") auto
    qed
    from evaluates_choice [OF this]
    have "\<exists>V. \<forall>i<n. \<forall>j<length fs. utility_at ps data (fs ! j) i = Inr (V j i)"
      by (rule exI [of _ "\<lambda>j i. projr (utility_at ps data (fs ! j) i)"])
    then obtain V where V: "\<forall>i<n. \<forall>j<length fs. utility_at ps data (fs ! j) i = Inr (V j i)" ..
    let ?T = "probability_table A V (length fs) n"
    note t = try_in_valid [OF Inr V, of A]
    show ?thesis
    proof (cases "validate_probabilities A ?T (length fs) [0..<n]")
      case (Inl e)
      with t have "calculate_probabilities_try_in A ps data fs = (all_calls n (length fs), Inl e)"
        by simp
      from in_raises [OF this] assms show ?thesis by simp
    next
      case ok: (Inr u)
      with t have "calculate_probabilities_try_in A ps data fs = (all_calls n (length fs), Inr ?T)"
        by simp
      from in_returns [OF this] assms have P: "P = ?T" by simp
      from ok have "validate_probabilities A ?T (length fs) [0..<n] = Inr ()" by simp
      then have "\<forall>i<n. ar_close A (total A (map (probability A (\<lambda>k. V k i) (length fs)) [0..<length fs]))"
        by (simp add: validate_probability_table)
      with Inr V P show ?thesis
        by (intro exI [of _ n] exI [of _ V] conjI)
    qed
  qed
qed


section \<open>Exact arithmetic\<close>

lemma foldl_add_sum_list: "foldl (+) a xs = a + sum_list (xs :: real list)"
  by (induction xs arbitrary: a) simp_all

lemma total_exact: "total exact_arithmetic xs = sum_list xs"
  by (simp add: total_def exact_arithmetic_def foldl_add_sum_list)

lemma probability_exact: "probability exact_arithmetic u m j = softmax u m j"
  by (simp add: probability_def softmax_def total_exact) (simp add: exact_arithmetic_def)

lemma probability_table_exact: "probability_table exact_arithmetic V m n = softmax_table V m n"
  by (simp add: probability_table_def softmax_table_def probability_exact)

lemma close_exact: "ar_close exact_arithmetic t \<longleftrightarrow> \<bar>t - 1\<bar> < 1 / 10 ^ 6"
  by (simp add: exact_arithmetic_def)

lemma calculate_probabilities_unfold:
  "calculate_probabilities parameters data utilities =
     (case calculate_probabilities_try parameters data utilities of
        (calls, Inl e) \<Rightarrow> \<lparr>printed = [''Error: '' @ str_exn e], returned = None, invoked = calls\<rparr>
      | (calls, Inr probabilities) \<Rightarrow>
          \<lparr>printed = [], returned = Some probabilities, invoked = calls\<rparr>)"
  by (simp add: calculate_probabilities_def calculate_probabilities_try_def
        calculate_probabilities_in_def)

lemma sum_list_exp_pos: "js \<noteq> [] \<Longrightarrow> 0 < sum_list (map (\<lambda>k. exp (u k :: real)) js)"
proof (induction js)
  case Nil then show ?case by simp
next
  case (Cons j js)
  have "0 \<le> sum_list (map (\<lambda>k. exp (u k)) js)"
    by (rule sum_list_nonneg) auto
  moreover have "0 < exp (u j)" by simp
  ultimately have "0 < exp (u j) + sum_list (map (\<lambda>k. exp (u k)) js)"
    by (rule add_pos_nonneg [rotated])
  then show ?case by simp
qed

lemma sum_list_divide: "sum_list (map (\<lambda>j. f j / (s :: real)) js) = sum_list (map f js) / s"
  by (induction js) (simp_all add: add_divide_distrib)

lemma softmax_sum:
  assumes "0 < m" shows "sum_list (map (softmax u m) [0..<m]) = 1"
proof -
  have "0 < sum_list (map (\<lambda>k. exp (u k)) [0..<m])"
    using assms by (intro sum_list_exp_pos) simp
  then show ?thesis
    unfolding softmax_def [abs_def] by (simp add: sum_list_divide)
qed

lemma softmax_pos: "0 < m \<Longrightarrow> j < m \<Longrightarrow> 0 < softmax u m j"
  using sum_list_exp_pos [of "[0..<m]" u] by (simp add: softmax_def)

lemma softmax_single: "softmax u (Suc 0) 0 = 1"
  by (simp add: softmax_def)

lemma try_valid:
  assumes valid: "validate_inputs data = Inr n"
    and vals: "\<forall>i<n. \<forall>j<length fs. utility_at ps data (fs ! j) i = Inr (V j i)"
  shows "calculate_probabilities_try ps data fs =
           (all_calls n (length fs),
            if length fs = 0 \<and> 0 < n then Inl (AssertionError (assertion_message 0))
            else Inr (softmax_table V (length fs) n))"
proof -
  let ?m = "length fs"
  note t = try_in_valid [OF valid vals, of exact_arithmetic, unfolded probability_table_exact,
      folded calculate_probabilities_try_def]
  show ?thesis
  proof (cases "?m = 0")
    case True
    show ?thesis
    proof (cases n)
      case 0
      with True t show ?thesis by simp
    next
      case (Suc n')
      have "validate_probabilities exact_arithmetic (softmax_table V 0 n) 0 [0..<n] =
              Inl (AssertionError (assertion_message 0))"
        unfolding Suc upt_conv_Cons [OF zero_less_Suc]
        by (simp add: total_def exact_arithmetic_def)
      with True Suc t show ?thesis by simp
    qed
  next
    case False
    then have m: "0 < ?m" by simp
    have "\<forall>i<n. ar_close exact_arithmetic
            (total exact_arithmetic (map (probability exact_arithmetic (\<lambda>k. V k i) ?m) [0..<?m]))"
    proof (intro allI impI)
      fix i assume "i < n"
      have "map (probability exact_arithmetic (\<lambda>k. V k i) ?m) [0..<?m]
              = map (softmax (\<lambda>k. V k i) ?m) [0..<?m]"
        by (simp add: probability_exact)
      then show "ar_close exact_arithmetic
            (total exact_arithmetic (map (probability exact_arithmetic (\<lambda>k. V k i) ?m) [0..<?m]))"
        by (simp only: total_exact softmax_sum [OF m] close_exact) simp
    qed
    then have "validate_probabilities exact_arithmetic (probability_table exact_arithmetic V ?m n)
                 ?m [0..<n] = Inr ()"
      by (simp only: validate_probability_table)
    then have "validate_probabilities exact_arithmetic (softmax_table V ?m n) ?m [0..<n] = Inr ()"
      by (simp only: probability_table_exact)
    with False t show ?thesis by simp
  qed
qed

lemma try_utility_raises:
  assumes valid: "validate_inputs data = Inr n"
    and "\<exists>i<n. \<exists>j<length fs. \<exists>e. utility_at ps data (fs ! j) i = Inl e"
  shows "\<exists>calls i j e. i < n \<and> j < length fs \<and> utility_at ps data (fs ! j) i = Inl e \<and>
           calculate_probabilities_try ps data fs = (calls, Inl e)"
  unfolding calculate_probabilities_try_def by (rule try_in_utility_raises [OF assms])

lemma try_mismatch:
  assumes "first_length data = Inr n"
    and "find (\<lambda>(key, values). length values \<noteq> n) data = Some (key, values)"
  shows "calculate_probabilities_try ps data fs =
           ([], Inl (ValueError (mismatch_message key n (length values))))"
  unfolding calculate_probabilities_try_def by (rule try_in_mismatch [OF assms])

lemma calculate_probabilities_raises:
  "calculate_probabilities_try ps data fs = (calls, Inl e) \<Longrightarrow>
     calculate_probabilities ps data fs =
       \<lparr>printed = [''Error: '' @ str_exn e], returned = None, invoked = calls\<rparr>"
  by (simp add: calculate_probabilities_unfold)


lemma calculate_probabilities_mismatch:
  assumes "first_length data = Inr n"
    and "find (\<lambda>(key, values). length values \<noteq> n) data = Some (key, values)"
  shows "calculate_probabilities ps data fs =
           \<lparr>printed = [''Error: '' @ mismatch_message key n (length values)],
            returned = None, invoked = []\<rparr>"
  using calculate_probabilities_raises [OF try_mismatch [OF assms]] by simp

lemma map_of_softmax_table:
  "j < m \<Longrightarrow> map_of (softmax_table V m n) (P_key j) = Some (map (\<lambda>i. softmax (\<lambda>k. V k i) m j) [0..<n])"
  by (simp add: softmax_table_def map_of_columns [OF inj_P_key])

lemma cell_softmax_table:
  "j < m \<Longrightarrow> i < n \<Longrightarrow> cell (P_key j) (softmax_table V m n) i = Inr (softmax (\<lambda>k. V k i) m j)"
  by (simp add: cell_def map_of_softmax_table)

lemma probability_values_softmax_table:
  assumes "i < n"
  shows "probability_values (softmax_table V m n) i [0..<m] = Inr (map (softmax (\<lambda>k. V k i) m) [0..<m])"
proof -
  have "probability_values (columns P_key m (\<lambda>j. map (\<lambda>i. softmax (\<lambda>k. V k i) m j) [0..<n])) i [0..<m]
      = Inr (map (\<lambda>j. map (\<lambda>i. softmax (\<lambda>k. V k i) m j) [0..<n] ! i) [0..<m])"
    using assms by (intro probability_values_columns) simp
  then show ?thesis using assms by (simp add: softmax_table_def)
qed

lemma softmax_table_single: "softmax_table V (Suc 0) n = [(''P1'', replicate n 1)]"
  by (simp add: softmax_table_def columns_def softmax_single P_key_0 map_replicate_const)




lemma try_unknown_variable:
  "calculate_probabilities_try () [(''X1'', [1, 2, 3 :: real])] [variable_utility ''X9''] =
     ([(0, 0)], Inl (KeyError ''X9''))"
  by (simp add: calculate_probabilities_try_def calculate_probabilities_try_in_def
        validate_inputs_def first_length_def
        init_columns_def data_point_def variable_utility_def upt_conv_Cons)

lemma try_two_lengths:
  "calculate_probabilities_try () [(''X1'', [1, 2, 3 :: real]), (''X2'', [1, 2])] [constant_utility 0] =
     ([], Inl (ValueError (mismatch_message ''X2'' 3 2)))"
  by (simp add: calculate_probabilities_try_def calculate_probabilities_try_in_def
        validate_inputs_def first_length_def numeral_3_eq_3 numeral_2_eq_2)

section \<open>The claims settled on the handler, the validation and the scenario\<close>

text \<open>
  C3, as stated, fails: a shape mismatch and a utility function that raises
  \<^verbatim>\<open>KeyError\<close> are different exceptions inside the body, and the caller receives
  \<^verbatim>\<open>None\<close> for both.
\<close>

theorem fault_masking_counterexample:
  "calculate_probabilities_try () [(''X1'', [1, 2, 3 :: real]), (''X2'', [1, 2])] [constant_utility 0] =
     ([], Inl (ValueError (mismatch_message ''X2'' 3 2))) \<and>
   calculate_probabilities_try () [(''X1'', [1, 2, 3 :: real])] [variable_utility ''X9''] =
     ([(0, 0)], Inl (KeyError ''X9'')) \<and>
   returned (calculate_probabilities () [(''X1'', [1, 2, 3 :: real]), (''X2'', [1, 2])] [constant_utility 0]) = None \<and>
   returned (calculate_probabilities () [(''X1'', [1, 2, 3 :: real])] [variable_utility ''X9'']) = None"
  using calculate_probabilities_raises [OF try_two_lengths] calculate_probabilities_raises [OF try_unknown_variable]
    try_two_lengths try_unknown_variable
  by simp

text \<open>
  C3, amended. A failing input of either kind is caught inside the call: for a shape
  mismatch the call prints the mismatch message of an offending variable, for a utility
  function that raises it prints the message of an exception that a utility function
  raised at some observation; in both cases it returns \<^verbatim>\<open>None\<close>.
\<close>

theorem faults_printed_and_none:
  "(first_length data = Inr n \<and> (\<exists>(key, values)\<in>set data. length values \<noteq> n) \<longrightarrow>
      (\<exists>key values. (key, values) \<in> set data \<and> length values \<noteq> n \<and>
         printed (calculate_probabilities parameters data utilities) =
           [''Error: '' @ mismatch_message key n (length values)] \<and>
         returned (calculate_probabilities parameters data utilities) = None)) \<and>
   (validate_inputs data = Inr n \<and>
      (\<exists>i<n. \<exists>j<length utilities. \<exists>e. utility_at parameters data (utilities ! j) i = Inl e) \<longrightarrow>
      (\<exists>i j e. i < n \<and> j < length utilities \<and>
         utility_at parameters data (utilities ! j) i = Inl e \<and>
         printed (calculate_probabilities parameters data utilities) = [''Error: '' @ str_exn e] \<and>
         returned (calculate_probabilities parameters data utilities) = None))"
proof (intro conjI impI)
  assume a: "first_length data = Inr n \<and> (\<exists>(key, values)\<in>set data. length values \<noteq> n)"
  then have a1: "first_length data = Inr n"
    and a2: "\<exists>(key, values)\<in>set data. length values \<noteq> n" by simp_all
  from find_mismatch [OF a2] obtain key "values" where
    f: "find (\<lambda>(key, values). length values \<noteq> n) data = Some (key, values)"
    and kv: "(key, values) \<in> set data" "length values \<noteq> n"
    by blast
  have r: "calculate_probabilities parameters data utilities =
             \<lparr>printed = [''Error: '' @ mismatch_message key n (length values)],
              returned = None, invoked = []\<rparr>"
    by (rule calculate_probabilities_mismatch [OF a1 f])
  show "\<exists>key values. (key, values) \<in> set data \<and> length values \<noteq> n \<and>
         printed (calculate_probabilities parameters data utilities) =
           [''Error: '' @ mismatch_message key n (length values)] \<and>
         returned (calculate_probabilities parameters data utilities) = None"
    using kv by (intro exI [of _ key] exI [of _ "values"]) (simp add: r)
next
  assume b: "validate_inputs data = Inr n \<and>
      (\<exists>i<n. \<exists>j<length utilities. \<exists>e. utility_at parameters data (utilities ! j) i = Inl e)"
  then have b1: "validate_inputs data = Inr n"
    and b2: "\<exists>i<n. \<exists>j<length utilities. \<exists>e. utility_at parameters data (utilities ! j) i = Inl e"
    by simp_all
  from try_utility_raises [OF b1 b2] obtain calls i j e where
    ij: "i < n" "j < length utilities" "utility_at parameters data (utilities ! j) i = Inl e"
    and t: "calculate_probabilities_try parameters data utilities = (calls, Inl e)"
    by blast
  show "\<exists>i j e. i < n \<and> j < length utilities \<and>
         utility_at parameters data (utilities ! j) i = Inl e \<and>
         printed (calculate_probabilities parameters data utilities) = [''Error: '' @ str_exn e] \<and>
         returned (calculate_probabilities parameters data utilities) = None"
    using ij by (intro exI [of _ i] exI [of _ j] exI [of _ e])
      (simp add: calculate_probabilities_raises [OF t])
qed

theorem faults_printed_and_none_witness:
  "printed (calculate_probabilities () [(''X1'', [1, 2, 3 :: real]), (''X2'', [1, 2])] [constant_utility 0])
     = [''Error: '' @ mismatch_message ''X2'' 3 2] \<and>
   returned (calculate_probabilities () [(''X1'', [1, 2, 3 :: real]), (''X2'', [1, 2])] [constant_utility 0])
     = None \<and>
   printed (calculate_probabilities () [(''X1'', [1, 2, 3 :: real])] [variable_utility ''X9''])
     = [''Error: '' @ [CHR 0x27] @ ''X9'' @ [CHR 0x27]] \<and>
   returned (calculate_probabilities () [(''X1'', [1, 2, 3 :: real])] [variable_utility ''X9''])
     = None"
proof -
  let ?bad = "[(''X1'', [1, 2, 3 :: real]), (''X2'', [1, 2])]"
  let ?good = "[(''X1'', [1, 2, 3 :: real])]"
  let ?c = "[constant_utility 0] :: (unit, real, real) utility list"
  let ?v = "[variable_utility ''X9''] :: (unit, real, real) utility list"
  have h1: "first_length ?bad = Inr 3 \<and> (\<exists>(key, values)\<in>set ?bad. length values \<noteq> 3)"
    by (simp add: first_length_def)
  have raises: "utility_at () ?good (variable_utility ''X9'') i = Inl (KeyError ''X9'')" if "i < 3" for i
  proof -
    from that have "i = 0 \<or> i = 1 \<or> i = 2" by auto
    then show ?thesis
      by (auto simp: utility_at_def data_point_def variable_utility_def)
  qed
  have h2: "validate_inputs ?good = Inr 3 \<and>
      (\<exists>i<3. \<exists>j<length ?v. \<exists>e. utility_at () ?good (?v ! j) i = Inl e)"
  proof
    show "validate_inputs ?good = Inr 3" by (simp add: validate_inputs_ok)
    show "\<exists>i<3. \<exists>j<length ?v. \<exists>e. utility_at () ?good (?v ! j) i = Inl e"
      using raises [of 0] by (intro exI [of _ 0]) simp
  qed
  from faults_printed_and_none [of ?bad 3 "()" ?c] h1
  obtain key "values" where kv: "(key, values) \<in> set ?bad" "length values \<noteq> 3"
    and p1: "printed (calculate_probabilities () ?bad ?c) =
           [''Error: '' @ mismatch_message key 3 (length values)]"
    and r1: "returned (calculate_probabilities () ?bad ?c) = None"
    by blast
  from kv have k: "key = ''X2''" and v: "values = [1, 2]" by auto
  have len: "length [1, 2 :: real] = 2" by simp
  from faults_printed_and_none [of ?good 3 "()" ?v] h2
  obtain i j e where ij: "i < 3" "j < length ?v"
    and u: "utility_at () ?good (?v ! j) i = Inl e"
    and p2: "printed (calculate_probabilities () ?good ?v) = [''Error: '' @ str_exn e]"
    and r2: "returned (calculate_probabilities () ?good ?v) = None"
    by blast
  from ij(2) have "j = 0" by simp
  with u raises [OF ij(1)] have e: "e = KeyError ''X9''" by simp
  show ?thesis
    unfolding p1 r1 p2 r2 k v len e by simp
qed

text \<open>
  C9 (empty observations). With no variable at all, \<^verbatim>\<open>next(iter(data.values()))\<close>
  raises \<^verbatim>\<open>StopIteration\<close>, not a shape fault naming a variable; the handler prints
  \<^verbatim>\<open>Error: \<close> with an empty message and returns \<^verbatim>\<open>None\<close>, and no utility function
  has been invoked.
\<close>

theorem empty_observations:
  "calculate_probabilities_try parameters [] utilities = ([], Inl StopIteration) \<and>
   calculate_probabilities parameters [] utilities =
     \<lparr>printed = [''Error: ''], returned = None, invoked = []\<rparr>"
  by (simp add: calculate_probabilities_unfold calculate_probabilities_try_def
        calculate_probabilities_try_in_def validate_inputs_empty)

text \<open>
  C10 (no utility functions). With an empty list of utility functions and a first
  variable of length \<open>n \<ge> 1\<close> the call returns \<^verbatim>\<open>None\<close> without invoking anything;
  when the shapes are valid the exception of the body is the \<^verbatim>\<open>AssertionError\<close> of
  observation 0, whose empty sum of probabilities is 0.
\<close>

theorem no_utilities_returns_none:
  assumes "first_length data = Inr n" and "0 < n"
  shows "returned (calculate_probabilities parameters data []) = None \<and>
         invoked (calculate_probabilities parameters data []) = [] \<and>
         ((\<forall>(key, values)\<in>set data. length values = n) \<longrightarrow>
            calculate_probabilities_try parameters data [] =
              ([], Inl (AssertionError (assertion_message 0))))"
proof (cases "\<forall>(key, values)\<in>set data. length values = n")
  case True
  from assms(1) have "data \<noteq> []" by (auto simp: first_length_def)
  with True have valid: "validate_inputs data = Inr n" by (simp add: validate_inputs_ok)
  have t: "calculate_probabilities_try parameters data [] =
          ([], Inl (AssertionError (assertion_message 0)))"
    using try_valid [OF valid, of "[]" parameters "\<lambda>j i. 0"] assms(2)
    by (simp add: all_calls_no_utilities)
  show ?thesis
    using t by (simp add: calculate_probabilities_raises [OF t])
next
  case False
  then have "\<exists>(key, values)\<in>set data. length values \<noteq> n" by auto
  from find_mismatch [OF this] obtain key "values" where
    f: "find (\<lambda>(key, values). length values \<noteq> n) data = Some (key, values)"
    by blast
  have "(\<forall>(key, values)\<in>set data. length values = n) \<longrightarrow>
            calculate_probabilities_try parameters data [] =
              ([], Inl (AssertionError (assertion_message 0)))"
    using False by blast
  then show ?thesis
    by (simp add: calculate_probabilities_mismatch [OF assms(1) f])
qed

theorem no_utilities_returns_none_witness:
  "returned (calculate_probabilities () [(''X1'', [2, 3 :: real])] []) = None \<and>
   invoked (calculate_probabilities () [(''X1'', [2, 3 :: real])] []) = [] \<and>
   calculate_probabilities_try () [(''X1'', [2, 3 :: real])] [] =
     ([], Inl (AssertionError ''Probabilities do not sum to 1 for data point 0.''))"
proof -
  have h1: "first_length [(''X1'', [2, 3 :: real])] = Inr 2" by (simp add: first_length_def)
  have h2: "0 < (2 :: nat)" by simp
  have msg: "assertion_message 0 = ''Probabilities do not sum to 1 for data point 0.''"
    by (simp add: assertion_message_def str_nat_digit digit_char_def)
  from no_utilities_returns_none [OF h1 h2, of "()"] show ?thesis
    unfolding msg by simp
qed



section \<open>Properties of float64\<close>

subsection \<open>Powers of two\<close>

lemma pow2_pos: "0 < pow2 e"
  by (simp add: pow2_def)

lemma pow2_add: "pow2 (a + b) = pow2 a * pow2 b"
  by (simp add: pow2_def powr_add)

lemma pow2_le_iff: "pow2 a \<le> pow2 b \<longleftrightarrow> a \<le> b"
  by (simp add: pow2_def)

lemma pow2_less_iff: "pow2 a < pow2 b \<longleftrightarrow> a < b"
  by (simp add: pow2_def)

lemma pow2_nat: "pow2 (int n) = 2 ^ n"
  by (simp add: pow2_def powr_realpow)

lemma pow2_0: "pow2 0 = 1"
  by (simp add: pow2_def)

lemma pow2_diff_mult: "pow2 (a - b) * pow2 b = pow2 a"
  using pow2_add [of "a - b" b] by simp

lemma floor_log_bounds:
  assumes "0 < x"
  shows "pow2 \<lfloor>log 2 x\<rfloor> \<le> x \<and> x < pow2 (\<lfloor>log 2 x\<rfloor> + 1)"
  unfolding pow2_def
  using floor_log_eq_powr_iff [of x 2 "\<lfloor>log 2 x\<rfloor>"] assms by simp

lemma floor_log_eq:
  assumes "pow2 k \<le> x" and "x < pow2 (k + 1)"
  shows "\<lfloor>log 2 x\<rfloor> = k"
proof -
  have "0 < x" using assms(1) pow2_pos [of k] by linarith
  then show ?thesis
    using floor_log_eq_powr_iff [of x 2 k] assms unfolding pow2_def by simp
qed

subsection \<open>Rounding\<close>

lemma round_half_even_bounds: "\<lfloor>q\<rfloor> \<le> round_half_even q \<and> round_half_even q \<le> \<lfloor>q\<rfloor> + 1"
  by (simp add: round_half_even_def)

lemma round_half_even_of_int: "round_half_even (of_int m) = m"
  by (simp add: round_half_even_def)

lemma round_half_even_ge:
  assumes "of_int k \<le> q"
  shows "k \<le> round_half_even q"
proof -
  from assms have "k \<le> \<lfloor>q\<rfloor>" by (simp add: le_floor_iff)
  then show ?thesis using round_half_even_bounds [of q] by linarith
qed

lemma round_half_even_le:
  assumes "q < of_int k"
  shows "round_half_even q \<le> k"
proof -
  from assms have "\<lfloor>q\<rfloor> < k" by (simp add: floor_less_iff)
  then show ?thesis using round_half_even_bounds [of q] by linarith
qed

lemma round_double_pos_eq:
  assumes "0 < x"
  shows "round_double x =
           of_int (round_half_even (x / pow2 (double_exponent x))) * pow2 (double_exponent x)"
  using assms by (simp add: round_double_def)

lemma round_double_0: "round_double 0 = 0"
  by (simp add: round_double_def)

text \<open>A positive number that is not below the least positive float64 is at least one unit of its exponent.\<close>

lemma double_exponent_le:
  assumes "pow2 (- 1074) \<le> x"
  shows "pow2 (double_exponent x) \<le> x"
proof (cases "- 1074 \<le> \<lfloor>log 2 x\<rfloor> - 52")
  case True
  have x: "0 < x" using assms pow2_pos [of "- 1074"] by linarith
  from True have "double_exponent x = \<lfloor>log 2 x\<rfloor> - 52" by (simp add: double_exponent_def)
  moreover have "pow2 (\<lfloor>log 2 x\<rfloor> - 52) \<le> pow2 \<lfloor>log 2 x\<rfloor>"
    by (simp add: pow2_le_iff)
  ultimately show ?thesis using floor_log_bounds [OF x] by simp
next
  case False
  then have "double_exponent x = - 1074" by (simp add: double_exponent_def)
  then show ?thesis using assms by simp
qed

lemma round_double_pos:
  assumes "pow2 (- 1074) \<le> x"
  shows "0 < round_double x \<and> round_double x \<le> 2 * x"
proof -
  let ?e = "double_exponent x"
  let ?q = "x / pow2 ?e"
  let ?m = "round_half_even ?q"
  have x: "0 < x" using assms pow2_pos [of "- 1074"] by linarith
  have pe: "0 < pow2 ?e" by (rule pow2_pos)
  have le: "pow2 ?e \<le> x" by (rule double_exponent_le [OF assms])
  then have "of_int 1 \<le> ?q" using pe by (simp add: le_divide_eq)
  then have m1: "1 \<le> ?m" by (rule round_half_even_ge)
  then have "(0 :: real) < of_int ?m" by simp
  then have pos: "0 < of_int ?m * pow2 ?e" using pe by simp
  have "of_int ?m * pow2 ?e \<le> 2 * x"
  proof -
    have "?m \<le> \<lfloor>?q\<rfloor> + 1" using round_half_even_bounds [of ?q] by simp
    then have "(of_int ?m :: real) \<le> of_int (\<lfloor>?q\<rfloor> + 1)" by (simp only: of_int_le_iff)
    also have "\<dots> \<le> ?q + 1" by simp
    finally have "of_int ?m * pow2 ?e \<le> (?q + 1) * pow2 ?e"
      using pe by (simp add: mult_right_mono)
    also have "\<dots> = x + pow2 ?e" using pe by (simp add: algebra_simps)
    also have "\<dots> \<le> 2 * x" using le by simp
    finally show ?thesis .
  qed
  with pos show ?thesis by (simp add: round_double_pos_eq [OF x])
qed

lemma round_double_overflow:
  assumes "pow2 1024 \<le> x"
  shows "pow2 1024 \<le> round_double x"
proof -
  have x: "0 < x" using assms pow2_pos [of 1024] by linarith
  define L where "L = \<lfloor>log 2 x\<rfloor>"
  have bounds: "pow2 L \<le> x" "x < pow2 (L + 1)"
    using floor_log_bounds [OF x] by (simp_all add: L_def)
  from assms bounds(2) have "pow2 1024 < pow2 (L + 1)" by linarith
  then have L: "1024 \<le> L" by (simp add: pow2_less_iff)
  then have e: "double_exponent x = L - 52" by (simp add: double_exponent_def L_def)
  let ?q = "x / pow2 (L - 52)"
  have split: "pow2 L = pow2 52 * pow2 (L - 52)"
    using pow2_diff_mult [of L 52] by (simp add: mult.commute)
  have "pow2 52 * pow2 (L - 52) \<le> x" using bounds(1) split by simp
  then have "pow2 52 \<le> ?q" using pow2_pos [of "L - 52"] by (simp add: le_divide_eq)
  moreover have "pow2 52 = of_int (2 ^ 52)" using pow2_nat [of 52] by simp
  ultimately have "of_int (2 ^ 52) \<le> ?q" by simp
  then have m: "2 ^ 52 \<le> round_half_even ?q" by (rule round_half_even_ge)
  have "pow2 1024 \<le> pow2 L" using L by (simp add: pow2_le_iff)
  also have "\<dots> = pow2 52 * pow2 (L - 52)" by (rule split)
  also have "\<dots> \<le> of_int (round_half_even ?q) * pow2 (L - 52)"
  proof (rule mult_right_mono)
    have "(of_int (2 ^ 52) :: real) \<le> of_int (round_half_even ?q)"
      using m by (simp only: of_int_le_iff)
    then show "pow2 52 \<le> of_int (round_half_even ?q)"
      using pow2_nat [of 52] by simp
    show "0 \<le> pow2 (L - 52)" using pow2_pos [of "L - 52"] by simp
  qed
  finally show ?thesis by (simp add: round_double_pos_eq [OF x] e)
qed

lemma f64_of_real_overflow: "pow2 1024 \<le> x \<Longrightarrow> f64_of_real x = PosInf"
  by (simp add: f64_of_real_def round_double_overflow)

lemma exp_2000_overflows: "pow2 1024 \<le> exp 2000"
proof -
  have "(2 :: real) \<le> exp 1" using exp_ge_add_one_self [of "1 :: real"] by simp
  then have "(2 :: real) ^ 2000 \<le> exp 1 ^ 2000" by (intro power_mono) simp_all
  also have "\<dots> = exp (of_nat 2000 * 1)" by (simp only: exp_of_nat_mult)
  also have "\<dots> = exp 2000" by simp
  finally have "pow2 (int 2000) \<le> exp 2000" by (simp only: pow2_nat)
  moreover have "pow2 1024 \<le> pow2 (int 2000)" by (simp add: pow2_le_iff)
  ultimately show ?thesis by linarith
qed

lemma f64_exp_2000: "f64_exp (Finite 2000) = PosInf"
  using f64_of_real_overflow [OF exp_2000_overflows] by simp

subsection \<open>The numbers of the format are fixed points of the rounding\<close>

lemma double_exponent_normal:
  fixes m :: int
  assumes "2 ^ 52 \<le> m" and "m < 2 ^ 53" and "- 1074 \<le> e"
  shows "double_exponent (of_int m * pow2 e) = e"
proof -
  have p52: "pow2 52 = of_int (2 ^ 52)" and p53: "pow2 53 = of_int (2 ^ 53)"
    using pow2_nat [of 52] pow2_nat [of 53] by simp_all
  have "(of_int (2 ^ 52) :: real) \<le> of_int m" using assms(1) by (simp only: of_int_le_iff)
  then have "pow2 52 * pow2 e \<le> of_int m * pow2 e"
    using pow2_pos [of e] by (simp add: p52 mult_right_mono)
  then have lo: "pow2 (52 + e) \<le> of_int m * pow2 e" by (simp add: pow2_add)
  have "(of_int m :: real) < of_int (2 ^ 53)" using assms(2) by (simp only: of_int_less_iff)
  then have "of_int m * pow2 e < pow2 53 * pow2 e"
    using pow2_pos [of e] by (simp add: p53)
  then have hi: "of_int m * pow2 e < pow2 (52 + e + 1)"
    using pow2_add [of 53 e] by (simp add: add.commute add.left_commute)
  have "\<lfloor>log 2 (of_int m * pow2 e)\<rfloor> = 52 + e" by (rule floor_log_eq [OF lo hi])
  then show ?thesis using assms(3) by (simp add: double_exponent_def)
qed

lemma round_double_normal:
  fixes m :: int
  assumes "2 ^ 52 \<le> m" and "m < 2 ^ 53" and "- 1074 \<le> e"
  shows "round_double (of_int m * pow2 e) = of_int m * pow2 e"
proof -
  have "(0 :: int) < 2 ^ 52" by simp
  with assms(1) have "0 < m" by linarith
  then have x: "0 < of_int m * pow2 e" using pow2_pos [of e] by simp
  have q: "of_int m * pow2 e / pow2 e = of_int m" using pow2_pos [of e] by simp
  show ?thesis
    by (simp only: round_double_pos_eq [OF x] double_exponent_normal [OF assms] q
          round_half_even_of_int)
qed




lemma round_double_nonneg: "0 \<le> x \<Longrightarrow> 0 \<le> round_double x"
proof -
  assume x: "0 \<le> x"
  show ?thesis
  proof (cases "x = 0")
    case True then show ?thesis by (simp add: round_double_0)
  next
    case False
    with x have pos: "0 < x" by simp
    have "0 \<le> x / pow2 (double_exponent x)" using pos pow2_pos [of "double_exponent x"] by simp
    then have "of_int 0 \<le> x / pow2 (double_exponent x)" by simp
    then have "0 \<le> round_half_even (x / pow2 (double_exponent x))" by (rule round_half_even_ge)
    then show ?thesis
      using pow2_pos [of "double_exponent x"] by (simp add: round_double_pos_eq [OF pos])
  qed
qed

subsection \<open>Some numbers of the format\<close>

lemma round_double_1: "round_double 1 = 1"
proof -
  have eq: "of_int (2 ^ 52) * pow2 (- 52) = 1"
  proof -
    have "pow2 52 * pow2 (- 52) = pow2 0" using pow2_add [of 52 "- 52"] by simp
    then show ?thesis using pow2_nat [of 52] by (simp add: pow2_0)
  qed
  have "round_double (of_int (2 ^ 52) * pow2 (- 52)) = of_int (2 ^ 52) * pow2 (- 52)"
    by (intro round_double_normal) simp_all
  then show ?thesis by (simp only: eq)
qed

lemma pow2_1024_gt_1: "1 < pow2 1024"
  using pow2_less_iff [of 0 1024] by (simp add: pow2_0)

lemma f64_of_real_0: "f64_of_real 0 = Finite 0"
  using pow2_pos [of 1024] by (simp add: f64_of_real_def round_double_0)

lemma f64_of_real_1: "f64_of_real 1 = Finite 1"
  using pow2_1024_gt_1 by (simp add: f64_of_real_def round_double_1)

lemma f64_exp_0: "f64_exp (Finite 0) = Finite 1"
  by (simp add: f64_of_real_1)

text \<open>The literal \<^verbatim>\<open>1e-6\<close> is a positive finite float64.\<close>

lemma tolerance_positive: "\<exists>t. f64_of_real (1 / 10 ^ 6) = Finite t \<and> 0 < t"
proof -
  have "pow2 (- 1074) \<le> pow2 (- 20)" by (simp add: pow2_le_iff)
  moreover have "pow2 (- 20) \<le> 1 / 10 ^ 6"
  proof -
    have "pow2 (- 20) * pow2 20 = 1" using pow2_add [of "- 20" 20] by (simp add: pow2_0)
    moreover have "pow2 20 = 2 ^ 20" using pow2_nat [of 20] by simp
    ultimately have "pow2 (- 20) = 1 / 2 ^ 20" by (simp add: field_simps)
    then show ?thesis by simp
  qed
  ultimately have "pow2 (- 1074) \<le> 1 / 10 ^ 6" by linarith
  from round_double_pos [OF this]
  have r: "0 < round_double (1 / 10 ^ 6)" "round_double (1 / 10 ^ 6) \<le> 2 * (1 / 10 ^ 6)"
    by simp_all
  then have "round_double (1 / 10 ^ 6) < pow2 1024" using pow2_1024_gt_1 by simp
  with r(1) show ?thesis using pow2_pos [of 1024] by (simp add: f64_of_real_def)
qed

lemma f64_close_1: "f64_close (Finite 1)"
proof -
  from tolerance_positive obtain t where "f64_of_real (1 / 10 ^ 6) = Finite t" "0 < t" by blast
  then show ?thesis by (simp add: f64_close_def f64_of_real_0)
qed


lemma round_double_2: "round_double 2 = 2"
proof -
  have eq: "of_int (2 ^ 52) * pow2 (- 51) = 2"
  proof -
    have "pow2 52 * pow2 (- 51) = pow2 1" using pow2_add [of 52 "- 51"] by simp
    then show ?thesis using pow2_nat [of 52] pow2_nat [of 1] by simp
  qed
  have "round_double (of_int (2 ^ 52) * pow2 (- 51)) = of_int (2 ^ 52) * pow2 (- 51)"
    by (intro round_double_normal) simp_all
  then show ?thesis by (simp only: eq)
qed

lemma round_double_half: "round_double (1 / 2) = 1 / 2"
proof -
  have eq: "of_int (2 ^ 52) * pow2 (- 53) = 1 / 2"
  proof -
    have "pow2 (- 1) * pow2 1 = 1" using pow2_add [of "- 1" 1] by (simp add: pow2_0)
    then have h: "pow2 (- 1) = 1 / 2" using pow2_nat [of 1] by (simp add: field_simps)
    have "pow2 52 * pow2 (- 53) = pow2 (- 1)" using pow2_add [of 52 "- 53"] by simp
    then show ?thesis using pow2_nat [of 52] h by simp
  qed
  have "round_double (of_int (2 ^ 52) * pow2 (- 53)) = of_int (2 ^ 52) * pow2 (- 53)"
    by (intro round_double_normal) simp_all
  then show ?thesis by (simp only: eq)
qed

lemma pow2_1024_gt_2: "2 < pow2 1024"
  using pow2_less_iff [of 1 1024] pow2_nat [of 1] by simp

lemma f64_of_real_2: "f64_of_real 2 = Finite 2"
  using pow2_1024_gt_2 by (simp add: f64_of_real_def round_double_2)

lemma f64_of_real_half: "f64_of_real (1 / 2) = Finite (1 / 2)"
  using pow2_1024_gt_1 by (simp add: f64_of_real_def round_double_half)

lemma float64_simps:
  "ar_zero float64 = Finite 0" "ar_add float64 = f64_add" "ar_exp float64 = f64_exp"
  "ar_div float64 = f64_div" "ar_close float64 = f64_close"
  by (simp_all add: float64_def)






lemma returned_table_f64:
  assumes "data \<noteq> []" and "\<forall>(key, values)\<in>set data. length values = n"
    and "returned (calculate_probabilities_f64 ps data fs) = Some P"
  shows "\<exists>V. (\<forall>i<n. \<forall>j<length fs. utility_at ps data (fs ! j) i = Inr (V j i)) \<and>
           P = probability_table float64 V (length fs) n \<and>
           (\<forall>i<n. f64_close (total float64 (map (probability float64 (\<lambda>k. V k i) (length fs)) [0..<length fs])))"
proof -
  from returned_table [OF assms(3) [unfolded calculate_probabilities_f64_def]]
  obtain n' V where r: "validate_inputs data = Inr n'"
    "\<forall>i<n'. \<forall>j<length fs. utility_at ps data (fs ! j) i = Inr (V j i)"
    "P = probability_table float64 V (length fs) n'"
    "\<forall>i<n'. ar_close float64 (total float64 (map (probability float64 (\<lambda>k. V k i) (length fs)) [0..<length fs]))"
    by (elim exE conjE)
  have "validate_inputs data = Inr n" by (rule validate_inputs_shape [OF assms(1,2)])
  with r(1) have "n' = n" by simp
  with r show ?thesis by (intro exI [of _ V]) (simp add: float64_simps)
qed

text \<open>Runs that return, and runs that fail at the first observation.\<close>

lemma run_returns:
  assumes "validate_inputs data = Inr n"
    and "\<forall>i<n. \<forall>j<length fs. utility_at ps data (fs ! j) i = Inr (V j i)"
    and "\<forall>i<n. ar_close A (total A (map (probability A (\<lambda>k. V k i) (length fs)) [0..<length fs]))"
  shows "calculate_probabilities_in A ps data fs =
           \<lparr>printed = [], returned = Some (probability_table A V (length fs) n),
            invoked = all_calls n (length fs)\<rparr>"
proof -
  have "validate_probabilities A (probability_table A V (length fs) n) (length fs) [0..<n] = Inr ()"
    using assms(3) by (simp only: validate_probability_table)
  with try_in_valid [OF assms(1,2), of A]
  have "calculate_probabilities_try_in A ps data fs =
          (all_calls n (length fs), Inr (probability_table A V (length fs) n))"
    by simp
  then show ?thesis by (rule in_returns)
qed



lemma one_observation: "validate_inputs [(''X1'', [0 :: real])] = Inr (Suc 0)"
  by (simp add: validate_inputs_def first_length_def)

lemma utility_at_one_observation:
  "utility_at () [(''X1'', [0 :: real])] (constant_utility c) 0 = Inr c"
  by (simp add: utility_at_def data_point_def constant_utility_def)


lemma P_key_Suc_0: "P_key (Suc 0) = ''P2''"
  using P_key_1 by simp




lemma run_zero_pair:
  "calculate_probabilities_f64 () [(''X1'', [0 :: real])]
       [constant_utility (Finite 0), constant_utility (Finite 0)] =
     \<lparr>printed = [],
      returned = Some [(''P1'', [Finite (1 / 2)]), (''P2'', [Finite (1 / 2)])],
      invoked = [(0, 0), (0, 1)]\<rparr>"
proof -
  let ?fs = "[constant_utility (Finite 0), constant_utility (Finite 0)] :: (unit, real, f64) utility list"
  have vals: "\<forall>i<Suc 0. \<forall>j<length ?fs.
      utility_at () [(''X1'', [0 :: real])] (?fs ! j) i = Inr ((\<lambda>j i. Finite 0) j i)"
    by (auto simp: utility_at_one_observation less_Suc_eq)
  have p: "probability float64 (\<lambda>k. Finite 0) (Suc (Suc 0)) j = Finite (1 / 2)" for j
    by (simp add: probability_def total_def float64_simps f64_exp_0 f64_of_real_1 f64_of_real_2
          f64_of_real_half)
  have ok: "\<forall>i<Suc 0. ar_close float64 (total float64
      (map (probability float64 (\<lambda>k. (\<lambda>j i. Finite 0) k i) (length ?fs)) [0..<length ?fs]))"
    by (simp add: p total_def float64_simps f64_of_real_half f64_of_real_1 f64_close_1)
  from run_returns [OF one_observation vals ok] show ?thesis
    by (simp add: calculate_probabilities_f64_def all_calls_def probability_table_def
          columns_def p P_key_0 P_key_Suc_0)
qed

section \<open>The claims settled on float64\<close>













section \<open>The claim settled on the validation of the input\<close>




section \<open>The claim on monotonicity\<close>

subsection \<open>Rounding is monotone\<close>

lemma round_half_even_mono:
  assumes "q \<le> q'"
  shows "round_half_even q \<le> round_half_even q'"
proof (cases "\<lfloor>q\<rfloor> = \<lfloor>q'\<rfloor>")
  case True
  with assms have "q - of_int \<lfloor>q\<rfloor> \<le> q' - of_int \<lfloor>q'\<rfloor>" by simp
  with True show ?thesis by (auto simp: round_half_even_def)
next
  case False
  with assms have "\<lfloor>q\<rfloor> < \<lfloor>q'\<rfloor>" using floor_mono [OF assms] by linarith
  then show ?thesis
    using round_half_even_bounds [of q] round_half_even_bounds [of q'] by linarith
qed

lemma double_exponent_mono:
  assumes "0 < x" and "x \<le> y"
  shows "double_exponent x \<le> double_exponent y"
proof -
  have "log 2 x \<le> log 2 y" using assms by simp
  then have "\<lfloor>log 2 x\<rfloor> \<le> \<lfloor>log 2 y\<rfloor>" by (rule floor_mono)
  then show ?thesis by (simp add: double_exponent_def)
qed

lemma mantissa_upper:
  assumes "0 < x"
  shows "round_half_even (x / pow2 (double_exponent x)) \<le> 2 ^ 53"
proof -
  define L where "L = \<lfloor>log 2 x\<rfloor>"
  define e where "e = double_exponent x"
  have bounds: "x < pow2 (L + 1)" using floor_log_bounds [OF assms] by (simp add: L_def)
  have e_ge': "L - 52 \<le> e" by (simp add: e_def double_exponent_def L_def)
  have p53: "pow2 53 = of_int (2 ^ 53)" using pow2_nat [of 53] by simp
  have "x < pow2 53 * pow2 (L - 52)"
    using bounds pow2_add [of 53 "L - 52"] by (simp add: algebra_simps)
  also have "\<dots> \<le> pow2 53 * pow2 e"
    using e_ge' pow2_pos [of 53] by (simp add: pow2_le_iff)
  finally have "x / pow2 e < pow2 53" using pow2_pos [of e] by (simp add: divide_less_eq)
  then have "x / pow2 e < of_int (2 ^ 53)" by (simp only: p53)
  then show ?thesis unfolding e_def by (rule round_half_even_le)
qed

lemma mantissa_lower:
  assumes "0 < x" and "- 1074 < double_exponent x"
  shows "2 ^ 52 \<le> round_half_even (x / pow2 (double_exponent x))"
proof -
  define L where "L = \<lfloor>log 2 x\<rfloor>"
  define e where "e = double_exponent x"
  have bounds: "pow2 L \<le> x" using floor_log_bounds [OF assms(1)] by (simp add: L_def)
  have e: "e = L - 52" using assms(2) by (simp add: e_def double_exponent_def L_def max_def split: if_splits)
  have p52: "pow2 52 = of_int (2 ^ 52)" using pow2_nat [of 52] by simp
  have "pow2 52 * pow2 e \<le> x"
    using bounds pow2_diff_mult [of L 52] e by (simp add: mult.commute)
  then have "pow2 52 \<le> x / pow2 e" using pow2_pos [of e] by (simp add: le_divide_eq)
  then have "of_int (2 ^ 52) \<le> x / pow2 e" by (simp only: p52)
  then show ?thesis unfolding e_def by (rule round_half_even_ge)
qed

lemma round_double_mono:
  assumes "0 \<le> x" and "x \<le> y"
  shows "round_double x \<le> round_double y"
proof (cases "x = 0")
  case True
  then show ?thesis using assms round_double_nonneg [of y] by (simp add: round_double_0)
next
  case False
  with assms have x: "0 < x" and y: "0 < y" by simp_all
  let ?ex = "double_exponent x" and ?ey = "double_exponent y"
  let ?mx = "round_half_even (x / pow2 ?ex)" and ?my = "round_half_even (y / pow2 ?ey)"
  have e: "?ex \<le> ?ey" by (rule double_exponent_mono [OF x assms(2)])
  have rx: "round_double x = of_int ?mx * pow2 ?ex" by (rule round_double_pos_eq [OF x])
  have ry: "round_double y = of_int ?my * pow2 ?ey" by (rule round_double_pos_eq [OF y])
  show ?thesis
  proof (cases "?ex = ?ey")
    case True
    have "x / pow2 ?ex \<le> y / pow2 ?ex"
      using assms(2) pow2_pos [of ?ex] by (simp add: divide_right_mono)
    then have "?mx \<le> round_half_even (y / pow2 ?ex)" by (rule round_half_even_mono)
    then have "(of_int ?mx :: real) \<le> of_int (round_half_even (y / pow2 ?ex))"
      by (simp only: of_int_le_iff)
    then have "of_int ?mx * pow2 ?ex \<le> of_int (round_half_even (y / pow2 ?ex)) * pow2 ?ex"
      using pow2_pos [of ?ex] by (simp add: mult_right_mono)
    then show ?thesis unfolding rx ry True [symmetric] .
  next
    case False
    with e have lt: "?ex + 1 \<le> ?ey" by simp
    have "- 1074 \<le> ?ex" by (simp add: double_exponent_def)
    with lt have normal: "- 1074 < ?ey" by linarith
    have p52: "pow2 52 = of_int (2 ^ 52)" and p53: "pow2 53 = of_int (2 ^ 53)"
      using pow2_nat [of 52] pow2_nat [of 53] by simp_all
    have "(of_int ?mx :: real) \<le> of_int (2 ^ 53)"
      using mantissa_upper [OF x] by (simp only: of_int_le_iff)
    then have "of_int ?mx * pow2 ?ex \<le> pow2 53 * pow2 ?ex"
      unfolding p53 using pow2_pos [of ?ex] by (simp add: mult_right_mono)
    also have "\<dots> = pow2 52 * pow2 (?ex + 1)"
      using pow2_add [of 53 ?ex] pow2_add [of 52 "?ex + 1"] by (simp add: add.commute add.left_commute)
    also have "\<dots> \<le> pow2 52 * pow2 ?ey"
      using lt pow2_pos [of 52] by (simp add: pow2_le_iff)
    also have "\<dots> \<le> of_int ?my * pow2 ?ey"
    proof (rule mult_right_mono)
      have "(of_int (2 ^ 52) :: real) \<le> of_int ?my"
        using mantissa_lower [OF y normal] by (simp only: of_int_le_iff)
      then show "pow2 52 \<le> of_int ?my" by (simp only: p52)
      show "0 \<le> pow2 ?ey" using pow2_pos [of ?ey] by simp
    qed
    finally show ?thesis unfolding rx ry .
  qed
qed

subsection \<open>The operations are monotone on the non-negative float64\<close>

lemma f64_less_never:
  "\<not> f64_less PosInf y" "\<not> f64_less x NegInf" "\<not> f64_less NaN y" "\<not> f64_less x NaN"
  by (cases y; simp) (cases x; simp)+

lemma f64_of_real_nonneg': "0 \<le> x \<Longrightarrow> f64_nonneg (f64_of_real x)"
  using round_double_nonneg [of x] by (simp add: f64_of_real_def)

lemma f64_of_real_mono:
  assumes "0 \<le> x" and "x \<le> y"
  shows "\<not> f64_less (f64_of_real y) (f64_of_real x)"
proof -
  have "round_double x \<le> round_double y" by (rule round_double_mono [OF assms])
  moreover have "0 \<le> round_double x" by (rule round_double_nonneg [OF assms(1)])
  ultimately show ?thesis
    using pow2_pos [of 1024] by (auto simp: f64_of_real_def)
qed

lemma f64_exp_nonneg: "v \<noteq> NaN \<Longrightarrow> f64_nonneg (f64_exp v)"
  by (cases v) (simp_all add: f64_of_real_nonneg')

lemma f64_exp_mono:
  assumes "f64_less v v'"
  shows "\<not> f64_less (f64_exp v') (f64_exp v)"
proof (cases v)
  case (Finite a)
  show ?thesis
  proof (cases v')
    case (Finite b)
    with assms \<open>v = Finite a\<close> have "exp a \<le> exp b" by simp
    then have "\<not> f64_less (f64_of_real (exp b)) (f64_of_real (exp a))"
      by (intro f64_of_real_mono) simp_all
    with Finite \<open>v = Finite a\<close> show ?thesis by simp
  next
    case PosInf
    with \<open>v = Finite a\<close> show ?thesis by (cases "f64_of_real (exp a)") simp_all
  qed (use assms \<open>v = Finite a\<close> in simp_all)
next
  case NegInf
  have "f64_nonneg (f64_exp v')" using assms NegInf by (intro f64_exp_nonneg) auto
  with NegInf show ?thesis by (cases "f64_exp v'") simp_all
qed (use assms in \<open>simp_all add: f64_less_never\<close>)

lemma f64_add_nonneg:
  assumes "f64_nonneg a" and "f64_nonneg b"
  shows "f64_nonneg (f64_add a b)"
  using assms by (cases a; cases b) (simp_all add: f64_of_real_nonneg')

lemma f64_add_mono:
  assumes "f64_nonneg a" and "f64_nonneg b" and "f64_nonneg a'" and "f64_nonneg b'"
    and "\<not> f64_less a' a" and "\<not> f64_less b' b"
  shows "\<not> f64_less (f64_add a' b') (f64_add a b)"
proof (cases a; cases b; cases a'; cases b')
  fix r s r' s'
  assume "a = Finite r" "b = Finite s" "a' = Finite r'" "b' = Finite s'"
  with assms show ?thesis by (simp add: f64_of_real_mono)
qed (use assms in \<open>simp_all add: f64_less_never\<close>)

subsection \<open>Sums and quotients of a row\<close>

lemma f64_less_irrefl: "\<not> f64_less x x"
  by (cases x) simp_all

lemma f64_add_Finite: "f64_add x y = Finite r \<Longrightarrow> (\<exists>a. x = Finite a) \<and> (\<exists>b. y = Finite b)"
  by (cases x; cases y) simp_all

lemma foldl_add_Finite:
  "foldl f64_add acc xs = Finite r \<Longrightarrow> (\<exists>a. acc = Finite a) \<and> (\<forall>x\<in>set xs. \<exists>b. x = Finite b)"
proof (induction xs arbitrary: acc)
  case Nil
  then show ?case by simp
next
  case (Cons x xs)
  from Cons.prems have "foldl f64_add (f64_add acc x) xs = Finite r" by simp
  from Cons.IH [OF this] obtain a where a: "f64_add acc x = Finite a"
    and rest: "\<forall>x\<in>set xs. \<exists>b. x = Finite b" by blast
  from f64_add_Finite [OF a] rest show ?case by simp
qed

lemma f64_close_Finite: "f64_close t \<Longrightarrow> \<exists>r. t = Finite r"
  by (cases t) (simp_all add: f64_close_def f64_less_never)

lemma foldl_add_nonneg:
  "f64_nonneg acc \<Longrightarrow> \<forall>x\<in>set xs. f64_nonneg x \<Longrightarrow> f64_nonneg (foldl f64_add acc xs)"
  by (induction xs arbitrary: acc) (simp_all add: f64_add_nonneg)

lemma foldl_add_mono:
  assumes "list_all2 (\<lambda>x x'. f64_nonneg x \<and> f64_nonneg x' \<and> \<not> f64_less x' x) xs xs'"
    and "f64_nonneg acc" and "f64_nonneg acc'" and "\<not> f64_less acc' acc"
  shows "\<not> f64_less (foldl f64_add acc' xs') (foldl f64_add acc xs)"
  using assms
proof (induction xs xs' arbitrary: acc acc' rule: list_all2_induct)
  case Nil
  then show ?case by simp
next
  case (Cons x xs x' xs')
  have "\<not> f64_less (f64_add acc' x') (f64_add acc x)"
    using Cons.hyps(1) Cons.prems by (intro f64_add_mono) simp_all
  moreover have "f64_nonneg (f64_add acc x)" "f64_nonneg (f64_add acc' x')"
    using Cons.hyps(1) Cons.prems by (simp_all add: f64_add_nonneg)
  ultimately show ?case using Cons.IH by simp
qed

lemma f64_of_real_Finite: "f64_of_real x = Finite q \<Longrightarrow> q = round_double x"
  by (simp add: f64_of_real_def split: if_splits)

text \<open>A larger divisor does not give a larger finite quotient.\<close>

lemma f64_div_antitone:
  assumes "f64_nonneg b" and "f64_nonneg s" and "f64_nonneg s'" and "\<not> f64_less s' s"
    and "f64_div b s = Finite q" and "f64_div b s' = Finite q'"
  shows "q' \<le> q"
proof (cases b)
  case (Finite r)
  with assms(1) have r: "0 \<le> r" by simp
  show ?thesis
  proof (cases s)
    case s: (Finite t)
    with assms(2) have "0 \<le> t" by simp
    moreover have "t \<noteq> 0" using assms(5) Finite s by (auto split: if_splits)
    ultimately have t: "0 < t" by simp
    with assms(5) Finite s have q: "q = round_double (r / t)"
      by (simp add: f64_of_real_Finite)
    show ?thesis
    proof (cases s')
      case s': (Finite t')
      with assms(4) s have tt': "t \<le> t'" by simp
      with t have t': "0 < t'" by simp
      with assms(6) Finite s' have q': "q' = round_double (r / t')"
        by (simp add: f64_of_real_Finite)
      have "r / t' \<le> r / t" using r t tt' by (simp add: frac_le)
      moreover have "0 \<le> r / t'" using r t' by simp
      ultimately show ?thesis unfolding q q' by (intro round_double_mono)
    next
      case PosInf
      with assms(6) Finite have "q' = 0" by simp
      moreover have "0 \<le> r / t" using r t by simp
      ultimately show ?thesis unfolding q using round_double_nonneg [of "r / t"] by simp
    qed (use assms(3) in simp_all)
  next
    case s: PosInf
    with assms(3,4) have "s' = PosInf" by (cases s') simp_all
    with s assms(5,6) Finite show ?thesis by simp
  qed (use assms(2) in simp_all)
next
  case PosInf
  with assms(5) show ?thesis by (cases s) (simp_all split: if_splits)
qed (use assms(1) in simp_all)

lemma probability_float64:
  "probability float64 u m k = f64_div (f64_exp (u k)) (foldl f64_add (Finite 0) (map (\<lambda>l. f64_exp (u l)) [0..<m]))"
  by (simp add: probability_def total_def float64_simps)

text \<open>In a row that passes the assertion every entry is finite and no exponential is NaN.\<close>

lemma close_row:
  assumes "f64_close (total float64 (map (probability float64 u m) [0..<m]))" and "k < m"
  shows "(\<exists>q. probability float64 u m k = Finite q) \<and> f64_nonneg (f64_exp (u k))"
proof -
  from f64_close_Finite [OF assms(1)] obtain r where
    "foldl f64_add (Finite 0) (map (probability float64 u m) [0..<m]) = Finite r"
    by (auto simp: total_def float64_simps)
  from foldl_add_Finite [OF this]
  have "\<forall>l\<in>{0..<m}. \<exists>b. probability float64 u m l = Finite b" by simp
  with assms(2) have "\<exists>q. probability float64 u m k = Finite q" by simp
  then obtain q where q: "probability float64 u m k = Finite q" ..
  then have "f64_exp (u k) \<noteq> NaN" by (auto simp: probability_float64)
  then have "u k \<noteq> NaN" by auto
  then have "f64_nonneg (f64_exp (u k))" by (rule f64_exp_nonneg)
  with q show ?thesis by blast
qed

lemma others_row:
  assumes close: "f64_close (total float64 (map (probability float64 u m) [0..<m]))"
    and close': "f64_close (total float64 (map (probability float64 u' m) [0..<m]))"
    and same: "\<forall>l<m. l \<noteq> j \<longrightarrow> u' l = u l"
    and more: "f64_less (u j) (u' j)"
    and k: "k < m" "k \<noteq> j"
  shows "\<exists>q q'. probability float64 u m k = Finite q \<and> probability float64 u' m k = Finite q' \<and> q' \<le> q"
proof -
  let ?es = "map (\<lambda>l. f64_exp (u l)) [0..<m]" and ?es' = "map (\<lambda>l. f64_exp (u' l)) [0..<m]"
  let ?S = "foldl f64_add (Finite 0) ?es" and ?S' = "foldl f64_add (Finite 0) ?es'"
  from close_row [OF close k(1)] obtain q where q: "probability float64 u m k = Finite q" by blast
  from close_row [OF close' k(1)] obtain q' where q': "probability float64 u' m k = Finite q'" by blast
  have nn: "f64_nonneg (f64_exp (u l))" and nn': "f64_nonneg (f64_exp (u' l))" if "l < m" for l
    using close_row [OF close that] close_row [OF close' that] by simp_all
  have S: "f64_nonneg ?S" and S': "f64_nonneg ?S'"
    using nn nn' by (auto intro!: foldl_add_nonneg)
  have pointwise: "\<not> f64_less (f64_exp (u' l)) (f64_exp (u l))" if "l < m" for l
  proof (cases "l = j")
    case True
    with more show ?thesis by (simp add: f64_exp_mono)
  next
    case False
    with same that show ?thesis by (simp add: f64_less_irrefl)
  qed
  have "list_all2 (\<lambda>x x'. f64_nonneg x \<and> f64_nonneg x' \<and> \<not> f64_less x' x) ?es ?es'"
    using nn nn' pointwise by (simp add: list_all2_conv_all_nth)
  then have le: "\<not> f64_less ?S' ?S"
    by (rule foldl_add_mono) (simp_all add: f64_less_irrefl)
  have same_k: "f64_exp (u' k) = f64_exp (u k)" using same k by simp
  have "q' \<le> q"
  proof (rule f64_div_antitone [OF nn [OF k(1)] S S' le])
    show "f64_div (f64_exp (u k)) ?S = Finite q" using q by (simp add: probability_float64)
    show "f64_div (f64_exp (u k)) ?S' = Finite q'"
      using q' by (simp add: probability_float64 same_k)
  qed
  with q q' show ?thesis by blast
qed

subsection \<open>Underflow, and the claim\<close>

text \<open>Underflow: the exponential of a utility of \<open>- 1999\<close> or less rounds to zero.\<close>

lemma round_double_underflow:
  assumes "0 < x" and "x < pow2 (- 1075)"
  shows "round_double x = 0"
proof -
  from floor_log_bounds [OF assms(1)] assms(2) have "pow2 \<lfloor>log 2 x\<rfloor> < pow2 (- 1075)" by linarith
  then have "\<lfloor>log 2 x\<rfloor> < - 1075" by (simp only: pow2_less_iff)
  then have "\<lfloor>log 2 x\<rfloor> - 52 \<le> - 1074" by linarith
  then have e: "double_exponent x = - 1074" unfolding double_exponent_def by (rule max_absorb2)
  define q where "q = x / pow2 (- 1074)"
  have "pow2 (- 1074) = pow2 (- 1075) * 2" using pow2_add [of "- 1075" 1] pow2_nat [of 1] by simp
  then have half: "pow2 (- 1075) / pow2 (- 1074) = 1 / 2" using pow2_pos [of "- 1075"] by simp
  have "q < pow2 (- 1075) / pow2 (- 1074)"
    unfolding q_def using assms(2) pow2_pos [of "- 1074"] by (simp add: divide_strict_right_mono)
  then have q1: "q < 1 / 2" by (simp only: half)
  have q0: "0 < q" unfolding q_def using assms(1) pow2_pos [of "- 1074"] by simp
  from q0 q1 have f: "\<lfloor>q\<rfloor> = 0" by (intro floor_unique) simp_all
  have "round_half_even q = 0" using q1 by (simp add: round_half_even_def f)
  then have "round_half_even (x / pow2 (- 1074)) = 0" by (simp only: q_def)
  then show ?thesis by (simp add: round_double_pos_eq [OF assms(1)] e)
qed

lemma exp_underflows:
  assumes "c \<le> - 1999"
  shows "exp c < pow2 (- 1075)"
proof -
  have "(2 :: real) \<le> exp 1" using exp_ge_add_one_self [of "1 :: real"] by simp
  then have "(2 :: real) ^ 1999 \<le> exp 1 ^ 1999" by (intro power_mono) simp_all
  also have "\<dots> = exp (of_nat 1999 * 1)" by (simp only: exp_of_nat_mult)
  also have "\<dots> = exp 1999" by simp
  finally have "pow2 (int 1999) \<le> exp 1999" by (simp only: pow2_nat)
  then have "pow2 1999 \<le> exp 1999" by simp
  then have "pow2 1999 * exp (- 1999) \<le> exp 1999 * exp (- 1999)"
    by (intro mult_right_mono) simp_all
  also have "\<dots> = 1" by (simp only: exp_add [symmetric]) simp
  finally have "pow2 1999 * exp (- 1999) \<le> pow2 1999 * pow2 (- 1999)"
    using pow2_add [of 1999 "- 1999"] by (simp add: pow2_0)
  then have "exp (- 1999) \<le> pow2 (- 1999)" using pow2_pos [of 1999] by simp
  moreover have "exp c \<le> exp (- 1999)" using assms by simp
  moreover have "pow2 (- 1999) < pow2 (- 1075)" by (simp add: pow2_less_iff)
  ultimately show ?thesis by linarith
qed

lemma f64_of_real_exp_underflow: "c \<le> - 1999 \<Longrightarrow> f64_of_real (exp c) = Finite 0"
  using round_double_underflow [OF exp_gt_zero exp_underflows, of c] pow2_pos [of 1024]
  by (simp add: f64_of_real_def)

lemma run_underflow_pair:
  assumes "c \<le> - 1999"
  shows "calculate_probabilities_f64 () [(''X1'', [0 :: real])]
           [constant_utility (Finite c), constant_utility (Finite 0)] =
         \<lparr>printed = [], returned = Some [(''P1'', [Finite 0]), (''P2'', [Finite 1])],
          invoked = [(0, 0), (0, 1)]\<rparr>"
proof -
  let ?fs = "[constant_utility (Finite c), constant_utility (Finite 0)] :: (unit, real, f64) utility list"
  let ?V = "\<lambda>(j :: nat) (i :: nat). if j = 0 then Finite c else Finite 0"
  have vals: "\<forall>i<Suc 0. \<forall>j<length ?fs.
      utility_at () [(''X1'', [0 :: real])] (?fs ! j) i = Inr (?V j i)"
    by (auto simp: utility_at_one_observation less_Suc_eq)
  have p0: "probability float64 (\<lambda>k. ?V k 0) (Suc (Suc 0)) 0 = Finite 0"
    by (simp add: probability_def total_def float64_simps f64_of_real_exp_underflow [OF assms]
          f64_of_real_0 f64_of_real_1)
  have p1: "probability float64 (\<lambda>k. ?V k 0) (Suc (Suc 0)) (Suc 0) = Finite 1"
    by (simp add: probability_def total_def float64_simps f64_of_real_exp_underflow [OF assms]
          f64_of_real_0 f64_of_real_1)
  have ok: "\<forall>i<Suc 0. ar_close float64 (total float64
      (map (probability float64 (\<lambda>k. ?V k i) (length ?fs)) [0..<length ?fs]))"
    using p0 p1 by (simp add: total_def float64_simps f64_of_real_0 f64_of_real_1 f64_close_1)
  from run_returns [OF one_observation vals ok] show ?thesis
    using p0 p1
    by (simp add: calculate_probabilities_f64_def all_calls_def probability_table_def
          columns_def P_key_0 P_key_Suc_0)
qed

text \<open>
  C4, as stated, fails. With two alternatives, raising the utility of the first from
  \<open>- 2000\<close> to \<open>- 1999\<close> while the second stays at 0 changes nothing: both
  exponentials underflow to 0, and both calls return the table with \<^verbatim>\<open>P1 = [0.0]\<close>
  and \<^verbatim>\<open>P2 = [1.0]\<close>. The probability of the first alternative has not increased and
  that of the second has not decreased.
\<close>

theorem monotonicity_counterexample:
  "utility_at () [(''X1'', [0 :: real])] (constant_utility (Finite (- 2000))) 0 = Inr (Finite (- 2000)) \<and>
   utility_at () [(''X1'', [0 :: real])] (constant_utility (Finite (- 1999))) 0 = Inr (Finite (- 1999)) \<and>
   utility_at () [(''X1'', [0 :: real])] (constant_utility (Finite 0)) 0 = Inr (Finite 0) \<and>
   f64_less (Finite (- 2000)) (Finite (- 1999)) \<and>
   calculate_probabilities_f64 () [(''X1'', [0 :: real])]
       [constant_utility (Finite (- 2000)), constant_utility (Finite 0)] =
     \<lparr>printed = [], returned = Some [(''P1'', [Finite 0]), (''P2'', [Finite 1])],
      invoked = [(0, 0), (0, 1)]\<rparr> \<and>
   calculate_probabilities_f64 () [(''X1'', [0 :: real])]
       [constant_utility (Finite (- 1999)), constant_utility (Finite 0)] =
     \<lparr>printed = [], returned = Some [(''P1'', [Finite 0]), (''P2'', [Finite 1])],
      invoked = [(0, 0), (0, 1)]\<rparr>"
  using run_underflow_pair [of "- 2000"] run_underflow_pair [of "- 1999"]
  by (simp add: utility_at_one_observation)

text \<open>
  C4, amended. Take two calls with \<open>m\<close> utility functions each, in which no utility
  function raises, and an observation \<open>i\<close> of both at which alternative \<open>j\<close> has a
  greater utility in the second call and every other alternative the same utility in
  both. If both calls return a table, then for every other alternative \<open>k\<close> the entries
  \<open>P[k][i]\<close> of both tables are finite numbers and the entry of the second call is not
  greater than that of the first. Nothing is stated about \<open>P[j][i]\<close>.
\<close>

theorem others_do_not_increase:
  assumes "data \<noteq> []" and "\<forall>(key, values)\<in>set data. length values = n"
    and "data' \<noteq> []" and "\<forall>(key, values)\<in>set data'. length values = n'"
    and "length utilities = m" and "length utilities' = m"
    and "\<forall>i<n. \<forall>l<m. utility_at parameters data (utilities ! l) i = Inr (V l i)"
    and "\<forall>i<n'. \<forall>l<m. utility_at parameters' data' (utilities' ! l) i = Inr (V' l i)"
    and "i < n" and "i < n'" and "j < m"
    and "\<forall>l<m. l \<noteq> j \<longrightarrow> V' l i = V l i"
    and "f64_less (V j i) (V' j i)"
    and "returned (calculate_probabilities_f64 parameters data utilities) = Some P"
    and "returned (calculate_probabilities_f64 parameters' data' utilities') = Some P'"
  shows "\<forall>k<m. k \<noteq> j \<longrightarrow>
           (\<exists>q q'. cell (P_key k) P i = Inr (Finite q) \<and>
                   cell (P_key k) P' i = Inr (Finite q') \<and> q' \<le> q)"
proof (intro allI impI)
  fix k assume k: "k < m" "k \<noteq> j"
  from returned_table_f64 [OF assms(1,2,14)]
  obtain W where W: "\<forall>i<n. \<forall>l<length utilities. utility_at parameters data (utilities ! l) i = Inr (W l i)"
    and P: "P = probability_table float64 W (length utilities) n"
    and C: "\<forall>i<n. f64_close (total float64 (map (probability float64 (\<lambda>l. W l i) (length utilities))
              [0..<length utilities]))"
    by (elim exE conjE)
  from returned_table_f64 [OF assms(3,4,15)]
  obtain W' where W': "\<forall>i<n'. \<forall>l<length utilities'. utility_at parameters' data' (utilities' ! l) i = Inr (W' l i)"
    and P': "P' = probability_table float64 W' (length utilities') n'"
    and C': "\<forall>i<n'. f64_close (total float64 (map (probability float64 (\<lambda>l. W' l i) (length utilities'))
              [0..<length utilities']))"
    by (elim exE conjE)
  have eq: "W l i = V l i" if "l < m" for l
  proof -
    have "utility_at parameters data (utilities ! l) i = Inr (W l i)"
      using W assms(5,9) that by simp
    moreover have "utility_at parameters data (utilities ! l) i = Inr (V l i)"
      using assms(7,9) that by simp
    ultimately show ?thesis by simp
  qed
  have eq': "W' l i = V' l i" if "l < m" for l
  proof -
    have "utility_at parameters' data' (utilities' ! l) i = Inr (W' l i)"
      using W' assms(6,10) that by simp
    moreover have "utility_at parameters' data' (utilities' ! l) i = Inr (V' l i)"
      using assms(8,10) that by simp
    ultimately show ?thesis by simp
  qed
  have close: "f64_close (total float64 (map (probability float64 (\<lambda>l. W l i) m) [0..<m]))"
    using C assms(5,9) by simp
  have close': "f64_close (total float64 (map (probability float64 (\<lambda>l. W' l i) m) [0..<m]))"
    using C' assms(6,10) by simp
  have same: "\<forall>l<m. l \<noteq> j \<longrightarrow> W' l i = W l i"
    using assms(12) eq eq' by simp
  have more: "f64_less (W j i) (W' j i)"
    using assms(11,13) eq eq' by simp
  from others_row [OF close close' same more k]
  obtain q q' where q: "probability float64 (\<lambda>l. W l i) m k = Finite q"
    and q': "probability float64 (\<lambda>l. W' l i) m k = Finite q'" and le: "q' \<le> q"
    by (elim exE conjE)
  have "cell (P_key k) P i = Inr (Finite q)"
    unfolding P assms(5) using cell_probability_table [OF k(1) assms(9), of float64 W] q by simp
  moreover have "cell (P_key k) P' i = Inr (Finite q')"
    unfolding P' assms(6) using cell_probability_table [OF k(1) assms(10), of float64 W'] q' by simp
  ultimately show "\<exists>q q'. cell (P_key k) P i = Inr (Finite q) \<and>
                   cell (P_key k) P' i = Inr (Finite q') \<and> q' \<le> q"
    using le by (intro exI conjI)
qed

theorem others_do_not_increase_witness:
  "returned (calculate_probabilities_f64 () [(''X1'', [0 :: real])]
       [constant_utility (Finite (- 2000)), constant_utility (Finite 0)]) =
     Some [(''P1'', [Finite 0]), (''P2'', [Finite 1])] \<and>
   returned (calculate_probabilities_f64 () [(''X1'', [0 :: real])]
       [constant_utility (Finite 0), constant_utility (Finite 0)]) =
     Some [(''P1'', [Finite (1 / 2)]), (''P2'', [Finite (1 / 2)])] \<and>
   f64_less (Finite (- 2000)) (Finite 0) \<and>
   (\<exists>q q'. cell (P_key 1) [(''P1'', [Finite 0]), (''P2'', [Finite 1])] 0 = Inr (Finite q) \<and>
           cell (P_key 1) [(''P1'', [Finite (1 / 2)]), (''P2'', [Finite (1 / 2)])] 0 = Inr (Finite q') \<and>
           q' \<le> q)"
proof -
  let ?data = "[(''X1'', [0 :: real])]"
  let ?fs = "[constant_utility (Finite (- 2000)), constant_utility (Finite 0)] :: (unit, real, f64) utility list"
  let ?fs' = "[constant_utility (Finite 0), constant_utility (Finite 0)] :: (unit, real, f64) utility list"
  let ?T = "[(''P1'', [Finite 0]), (''P2'', [Finite 1])]"
  let ?T' = "[(''P1'', [Finite (1 / 2)]), (''P2'', [Finite (1 / 2)])]"
  let ?V = "\<lambda>(l :: nat) (i :: nat). if l = 0 then Finite (- 2000) else Finite 0"
  let ?V' = "\<lambda>(l :: nat) (i :: nat). Finite 0"
  have h1: "?data \<noteq> []" by simp
  have h2: "\<forall>(key, values)\<in>set ?data. length values = 1" by simp
  have h5: "length ?fs = 2" and h6: "length ?fs' = 2" by simp_all
  have h7: "\<forall>i<1. \<forall>l<2. utility_at () ?data (?fs ! l) i = Inr (?V l i)"
    by (auto simp: utility_at_one_observation less_Suc_eq numeral_2_eq_2)
  have h8: "\<forall>i<1. \<forall>l<2. utility_at () ?data (?fs' ! l) i = Inr (?V' l i)"
    by (auto simp: utility_at_one_observation less_Suc_eq numeral_2_eq_2)
  have h9: "(0 :: nat) < 1" and h11: "(0 :: nat) < 2" by simp_all
  have h12: "\<forall>l<2. l \<noteq> 0 \<longrightarrow> ?V' l 0 = ?V l 0" by simp
  have h13: "f64_less (?V 0 0) (?V' 0 0)" by simp
  have h14: "returned (calculate_probabilities_f64 () ?data ?fs) = Some ?T"
    by (simp add: run_underflow_pair)
  have h15: "returned (calculate_probabilities_f64 () ?data ?fs') = Some ?T'"
    by (simp add: run_zero_pair)
  from others_do_not_increase [OF h1 h2 h1 h2 h5 h6 h7 h8 h9 h9 h11 h12 h13 h14 h15]
  have "\<exists>q q'. cell (P_key 1) ?T 0 = Inr (Finite q) \<and> cell (P_key 1) ?T' 0 = Inr (Finite q') \<and> q' \<le> q"
    by simp
  with h14 h15 show ?thesis by simp
qed

end
